theory Spec2Isabelle
  imports Complex_Main "HOL-Library.Multiset"
begin

section \<open>Numbers and grid positions\<close>

text \<open>
  The program is JavaScript. Every number it computes with in the parts modelled here is
  an integer far below \<open>2^53\<close> (grid coordinates, counters, milliseconds), which a
  double represents exactly; such numbers are \<^typ>\<open>int\<close>. Quotients (averages, area
  ratios, the centre score) are \<^typ>\<open>real\<close>. A position object \<open>{x, y}\<close> is the pair
  \<open>(x, y)\<close>, and the string key \<open>`${x},${y}`\<close> of a position, which is injective on
  integer coordinates, is the pair itself.
\<close>

type_synonym position = "int \<times> int"

text \<open>
  Both \<open>DangerPredictor\<close> and \<open>PathfindingEngine\<close> carry the board's width and height
  and the same \<open>isValidPosition\<close>.
\<close>

record board =
  boardWidth :: int
  boardHeight :: int

definition isValidPosition :: "'a board_scheme \<Rightarrow> position \<Rightarrow> bool" where
  "isValidPosition b pos \<longleftrightarrow>
     fst pos \<ge> 0 \<and> fst pos < boardWidth b \<and> snd pos \<ge> 0 \<and> snd pos < boardHeight b"

text \<open>The direction labels \<open>'up'\<close>, \<open>'down'\<close>, \<open>'left'\<close>, \<open>'right'\<close>.\<close>

datatype direction = Up | Down | Left | Right

section \<open>DifficultyManager\<close>

text \<open>
  \<open>src/js/ai/DifficultyManager.js\<close>. The object's fields are the fields of the record.
  \<open>Date.now()\<close> is an input of the two recording operations. \<open>savePerformanceData\<close>
  writes a snapshot to the browser's storage and changes no field, so it does not
  appear in the state transformers. The statistics passed to \<open>recordGameEnd\<close> carry the
  prefix \<open>stats_\<close>, and the field \<open>length\<close> of a history entry is \<open>snakeLength\<close>.
\<close>

record gameStats =
  stats_score :: int
  stats_length :: int
  stats_survivalTime :: int
  stats_foodCollected :: int

record gameData =
  score :: int
  snakeLength :: int
  survivalTime :: int
  foodCollected :: int
  averageCollectionTime :: real
  finalSpeed :: int
  timestamp :: int

record DifficultyManager =
  baseSpeed :: int
  minSpeed :: int
  maxSpeed :: int
  performanceHistory :: "gameData list"
  maxHistoryLength :: nat
  currentSpeed :: int
  consecutiveSuccesses :: int
  recentDeaths :: int
  speedIncreaseThreshold :: int
  speedDecreaseThreshold :: int
  speedAdjustmentAmount :: int
  gameStartTime :: int
  lastFoodTime :: int
  foodCollectionTimes :: "int list"

text \<open>The constructor, when the storage holds no saved data.\<close>

definition newDifficultyManager :: DifficultyManager where
  "newDifficultyManager =
     \<lparr> baseSpeed = 150, minSpeed = 50, maxSpeed = 300,
       performanceHistory = [], maxHistoryLength = 10,
       currentSpeed = 150, consecutiveSuccesses = 0, recentDeaths = 0,
       speedIncreaseThreshold = 3, speedDecreaseThreshold = 2,
       speedAdjustmentAmount = 15,
       gameStartTime = 0, lastFoodTime = 0, foodCollectionTimes = [] \<rparr>"

definition initializeGame :: "int \<Rightarrow> DifficultyManager \<Rightarrow> DifficultyManager" where
  "initializeGame now d =
     (let d1 = d\<lparr>gameStartTime := now, lastFoodTime := now, foodCollectionTimes := []\<rparr>
      in if length (performanceHistory d1) = 0 then d1\<lparr>currentSpeed := baseSpeed d1\<rparr> else d1)"

text \<open>\<open>increaseDifficulty\<close> and \<open>decreaseDifficulty\<close> return whether the speed changed.\<close>

definition increaseDifficulty :: "DifficultyManager \<Rightarrow> bool \<times> DifficultyManager" where
  "increaseDifficulty d =
     (let oldSpeed = currentSpeed d;
          d' = d\<lparr>currentSpeed := max (minSpeed d) (currentSpeed d - speedAdjustmentAmount d)\<rparr>
      in (currentSpeed d' \<noteq> oldSpeed, d'))"

definition decreaseDifficulty :: "DifficultyManager \<Rightarrow> bool \<times> DifficultyManager" where
  "decreaseDifficulty d =
     (let oldSpeed = currentSpeed d;
          d' = d\<lparr>currentSpeed := min (maxSpeed d) (currentSpeed d + speedAdjustmentAmount d)\<rparr>
      in (currentSpeed d' \<noteq> oldSpeed, d'))"

definition recordFoodCollection :: "int \<Rightarrow> int \<Rightarrow> int \<Rightarrow> DifficultyManager \<Rightarrow> DifficultyManager" where
  "recordFoodCollection currentTime sc len d =
     (let timeSinceLastFood = currentTime - lastFoodTime d;
          d1 = d\<lparr>foodCollectionTimes := foodCollectionTimes d @ [timeSinceLastFood],
                  lastFoodTime := currentTime,
                  consecutiveSuccesses := consecutiveSuccesses d + 1\<rparr>
      in if consecutiveSuccesses d1 \<ge> speedIncreaseThreshold d1
         then (snd (increaseDifficulty d1))\<lparr>consecutiveSuccesses := 0\<rparr>
         else d1)"

text \<open>
  \<open>total / length\<close> on a non-empty list of integers; the empty list is the explicit
  \<open>return 0\<close> of the source.
\<close>

definition calculateAverageCollectionTime :: "DifficultyManager \<Rightarrow> real" where
  "calculateAverageCollectionTime d =
     (if length (foodCollectionTimes d) = 0 then 0
      else real_of_int (sum_list (foodCollectionTimes d)) / real (length (foodCollectionTimes d)))"

text \<open>
  \<open>slice(-3)\<close> keeps the last three entries, or all of them when there are fewer.
  \<open>analyzePerformanceAndAdjust\<close> runs on a history of at least two entries, so the
  averages divide by 2 or 3.
\<close>

definition lastThree :: "'a list \<Rightarrow> 'a list" where
  "lastThree xs = drop (length xs - 3) xs"

definition analyzePerformanceAndAdjust :: "gameData \<Rightarrow> DifficultyManager \<Rightarrow> DifficultyManager" where
  "analyzePerformanceAndAdjust currentGameData d =
     (if length (performanceHistory d) < 2 then d
      else
        let recentGames = lastThree (performanceHistory d);
            averageScore = real_of_int (sum_list (map score recentGames)) / real (length recentGames);
            averageSurvival = real_of_int (sum_list (map survivalTime recentGames)) / real (length recentGames);
            isStruggling = (averageScore < 50 \<or> averageSurvival < 10000
                            \<or> recentDeaths d \<ge> speedDecreaseThreshold d);
            isPerformingWell = (averageScore > 100 \<and> averageSurvival > 30000
                                \<and> averageCollectionTime currentGameData < 3000)
        in if isStruggling then (snd (decreaseDifficulty d))\<lparr>recentDeaths := 0\<rparr>
           else if isPerformingWell \<and> recentDeaths d = 0 then snd (increaseDifficulty d)
           else d)"

definition recordGameEnd :: "int \<Rightarrow> gameStats \<Rightarrow> DifficultyManager \<Rightarrow> DifficultyManager" where
  "recordGameEnd now stats d =
     (let gd = \<lparr> score = stats_score stats, snakeLength = stats_length stats,
                  survivalTime = stats_survivalTime stats,
                  foodCollected = stats_foodCollected stats,
                  averageCollectionTime = calculateAverageCollectionTime d,
                  finalSpeed = currentSpeed d, timestamp = now \<rparr>;
          d1 = d\<lparr>performanceHistory := performanceHistory d @ [gd]\<rparr>;
          d2 = (if length (performanceHistory d1) > maxHistoryLength d1
                then d1\<lparr>performanceHistory := tl (performanceHistory d1)\<rparr> else d1);
          d3 = d2\<lparr>consecutiveSuccesses := 0\<rparr>;
          d4 = d3\<lparr>recentDeaths := recentDeaths d3 + 1\<rparr>
      in analyzePerformanceAndAdjust gd d4)"

text \<open>A sequence of calls made by the game loop, applied in order.\<close>

datatype event = FoodCollected int int int | GameEnded int gameStats

fun applyEvent :: "DifficultyManager \<Rightarrow> event \<Rightarrow> DifficultyManager" where
  "applyEvent d (FoodCollected currentTime sc len) = recordFoodCollection currentTime sc len d"
| "applyEvent d (GameEnded now stats) = recordGameEnd now stats d"

definition applyEvents :: "event list \<Rightarrow> DifficultyManager \<Rightarrow> DifficultyManager" where
  "applyEvents evs d = foldl applyEvent d evs"

text \<open>The configuration the constructor sets and no method changes.\<close>

definition configured :: "DifficultyManager \<Rightarrow> bool" where
  "configured d \<longleftrightarrow> minSpeed d = 50 \<and> maxSpeed d = 300 \<and> speedAdjustmentAmount d = 15
     \<and> speedIncreaseThreshold d = 3 \<and> speedDecreaseThreshold d = 2"

section \<open>DangerPredictor\<close>

text \<open>
  \<open>src/js/ai/HintSystem.js\<close>, class \<open>DangerPredictor\<close>. A zone's \<open>direction\<close> is one of
  the four direction labels or \<open>'trap'\<close>. The field \<open>animationTime\<close> is used by the
  rendering only and is left out.
\<close>

datatype zoneLabel = Heading direction | Trap

record DangerZone =
  zone_position :: position
  zone_level :: int
  zone_direction :: zoneLabel
  zone_reason :: string

record DangerPredictor = board +
  dangerZones :: "DangerZone list"
  enabled :: bool

definition newDangerPredictor :: "int \<Rightarrow> int \<Rightarrow> DangerPredictor" where
  "newDangerPredictor w h =
     \<lparr> boardWidth = w, boardHeight = h, dangerZones = [], enabled = True \<rparr>"

text \<open>The four neighbours, in the order up, down, left, right of the source's tables.\<close>

definition orthogonal :: "position \<Rightarrow> position list" where
  "orthogonal pos =
     [(fst pos, snd pos - 1), (fst pos, snd pos + 1), (fst pos - 1, snd pos), (fst pos + 1, snd pos)]"

definition countEscapeRoutes :: "'a board_scheme \<Rightarrow> position \<Rightarrow> position set \<Rightarrow> int" where
  "countEscapeRoutes dp pos obstacles =
     int (length (filter (\<lambda>nextPos. isValidPosition dp nextPos \<and> nextPos \<notin> obstacles)
                         (orthogonal pos)))"

definition calculateWallProximity :: "'a board_scheme \<Rightarrow> position \<Rightarrow> int" where
  "calculateWallProximity dp pos =
     (let p1 = (if fst pos \<le> 1 then 1 else 0);
          p2 = p1 + (if fst pos \<ge> boardWidth dp - 2 then 1 else 0);
          p3 = p2 + (if snd pos \<le> 1 then 1 else 0);
          p4 = p3 + (if snd pos \<ge> boardHeight dp - 2 then 1 else 0)
      in if (fst pos \<le> 1 \<or> fst pos \<ge> boardWidth dp - 2) \<and>
            (snd pos \<le> 1 \<or> snd pos \<ge> boardHeight dp - 2)
         then p4 + 1 else p4)"

definition manhattan :: "position \<Rightarrow> position \<Rightarrow> int" where
  "manhattan p q = \<bar>fst p - fst q\<bar> + \<bar>snd p - snd q\<bar>"

definition calculateBodyProximity :: "position \<Rightarrow> position list \<Rightarrow> int" where
  "calculateBodyProximity pos snakeBody =
     (let closeSegments = int (length (filter (\<lambda>segment. manhattan pos segment \<le> 2) snakeBody))
      in min 4 closeSegments)"

text \<open>
  \<open>floodFillCount\<close>: the queue loop. An iteration either drops the queue's head
  (visited, obstacle or outside the board) or counts it and appends its four neighbours;
  the loop stops at an empty queue or at 100 counted cells.
\<close>

function floodFillLoop ::
  "'a board_scheme \<Rightarrow> position set \<Rightarrow> position list \<Rightarrow> position set \<Rightarrow> int \<Rightarrow> int" where
  "floodFillLoop dp obstacles queue visited cnt =
     (case queue of
        [] \<Rightarrow> cnt
      | pos # rest \<Rightarrow>
          if cnt < 100 then
            (if pos \<in> visited then floodFillLoop dp obstacles rest visited cnt
             else if pos \<in> obstacles then floodFillLoop dp obstacles rest visited cnt
             else if isValidPosition dp pos then
               floodFillLoop dp obstacles
                 (rest @ [(fst pos + 1, snd pos), (fst pos - 1, snd pos),
                          (fst pos, snd pos + 1), (fst pos, snd pos - 1)])
                 (insert pos visited) (cnt + 1)
             else floodFillLoop dp obstacles rest visited cnt)
          else cnt)"
  by pat_completeness auto
termination
  by (relation "measures [\<lambda>(dp, obstacles, queue, visited, cnt). nat (100 - cnt),
                          \<lambda>(dp, obstacles, queue, visited, cnt). length queue]") auto

definition floodFillCount :: "'a board_scheme \<Rightarrow> position \<Rightarrow> position set \<Rightarrow> int" where
  "floodFillCount dp start obstacles = floodFillLoop dp obstacles [start] {} 0"

text \<open>
  \<open>reachableArea / totalArea < c\<close> in IEEE arithmetic: with \<open>totalArea = 0\<close> the
  quotient is \<open>NaN\<close> or an infinity with the sign of \<open>reachableArea\<close>, and is below
  \<open>c\<close> only for a negative \<open>reachableArea\<close>. Otherwise the quotient of two small
  integers compares with \<open>0.1\<close> and \<open>0.3\<close> as the exact rational does.
\<close>

definition ratioBelow :: "int \<Rightarrow> int \<Rightarrow> real \<Rightarrow> bool" where
  "ratioBelow a b c = (if b = 0 then a < 0 else real_of_int a / real_of_int b < c)"

definition calculateDangerLevel ::
  "'a board_scheme \<Rightarrow> position \<Rightarrow> position list \<Rightarrow> position \<Rightarrow> int" where
  "calculateDangerLevel dp pos snakeBody foodPosition =
     (let obstacles = set snakeBody;
          escapeRoutes = countEscapeRoutes dp pos obstacles;
          danger1 = (if escapeRoutes = 0 then 100
                     else if escapeRoutes = 1 then 60
                     else if escapeRoutes = 2 then 30 else 0);
          wallProximity = calculateWallProximity dp pos;
          danger2 = danger1 + wallProximity * 10;
          bodyProximity = calculateBodyProximity pos snakeBody;
          danger3 = danger2 + bodyProximity * 15;
          reachableArea = floodFillCount dp pos obstacles;
          totalArea = boardWidth dp * boardHeight dp - int (length snakeBody);
          danger4 = (if ratioBelow reachableArea totalArea (1 / 10) then danger3 + 50
                     else if ratioBelow reachableArea totalArea (3 / 10) then danger3 + 25
                     else danger3);
          currentDistToFood = \<bar>fst pos - fst foodPosition\<bar> + \<bar>snd pos - snd foodPosition\<bar>;
          danger5 = (if currentDistToFood > 10 then danger4 + 5 else danger4)
      in min 100 danger5)"

definition getDangerReason :: "int \<Rightarrow> string" where
  "getDangerReason level =
     (if level \<ge> 80 then ''CRITICAL: Dead end!''
      else if level \<ge> 60 then ''HIGH: Limited escape''
      else if level \<ge> 40 then ''MEDIUM: Risky area''
      else if level \<ge> 20 then ''LOW: Be careful''
      else ''Slight risk'')"

text \<open>
  One pass of the loop of \<open>analyze\<close> over a direction: the source skips the direction
  (\<open>continue\<close>) when the neighbour is outside the board or in the body, which is the
  \<open>else\<close> branch here.
\<close>

definition headings :: "(int \<times> int \<times> direction) list" where
  "headings = [(0, -1, Up), (0, 1, Down), (-1, 0, Left), (1, 0, Right)]"

definition analyzeDirection ::
  "'a board_scheme \<Rightarrow> position \<Rightarrow> position list \<Rightarrow> position \<Rightarrow>
   int \<times> int \<times> direction \<Rightarrow> DangerZone list \<Rightarrow> DangerZone list" where
  "analyzeDirection dp snakeHead snakeBody foodPosition dir zones =
     (let nextPos = (fst snakeHead + fst dir, snd snakeHead + fst (snd dir))
      in if isValidPosition dp nextPos \<and> nextPos \<notin> set snakeBody then
           (let dangerLevel = calculateDangerLevel dp nextPos snakeBody foodPosition
            in if dangerLevel > 0
               then zones @ [\<lparr> zone_position = nextPos, zone_level = dangerLevel,
                                zone_direction = Heading (snd (snd dir)),
                                zone_reason = getDangerReason dangerLevel \<rparr>]
               else zones)
         else zones)"

text \<open>
  \<open>detectCorridorTraps\<close>: the cells at distance 2, 3 and 4 along each axis, in the
  source's order; a cell already holding a zone is not given a second one.
\<close>

definition probes :: "position \<Rightarrow> position list" where
  "probes snakeHead =
     concat (map (\<lambda>distance.
                    [(fst snakeHead + distance, snd snakeHead),
                     (fst snakeHead - distance, snd snakeHead),
                     (fst snakeHead, snd snakeHead + distance),
                     (fst snakeHead, snd snakeHead - distance)])
                 [2, 3, 4])"

definition probeCell ::
  "'a board_scheme \<Rightarrow> position set \<Rightarrow> position \<Rightarrow> DangerZone list \<Rightarrow> DangerZone list" where
  "probeCell dp obstacles pos zones =
     (if isValidPosition dp pos then
        (if countEscapeRoutes dp pos obstacles \<le> 1 then
           (case find (\<lambda>z. zone_position z = pos) zones of
              None \<Rightarrow> zones @ [\<lparr> zone_position = pos, zone_level = 40,
                                      zone_direction = Trap,
                                      zone_reason = ''Potential trap ahead'' \<rparr>]
            | Some existingZone \<Rightarrow> zones)
         else zones)
      else zones)"

definition detectCorridorTraps ::
  "'a board_scheme \<Rightarrow> position \<Rightarrow> position list \<Rightarrow> DangerZone list \<Rightarrow> DangerZone list" where
  "detectCorridorTraps dp snakeHead snakeBody zones =
     fold (probeCell dp (set snakeBody)) (probes snakeHead) zones"

definition analyze ::
  "position \<Rightarrow> position list \<Rightarrow> position \<Rightarrow> DangerPredictor \<Rightarrow> DangerPredictor" where
  "analyze snakeHead snakeBody foodPosition dp =
     (if enabled dp then
        dp\<lparr>dangerZones :=
             detectCorridorTraps dp snakeHead snakeBody
               (fold (analyzeDirection dp snakeHead snakeBody foodPosition) headings [])\<rparr>
      else dp\<lparr>dangerZones := []\<rparr>)"

text \<open>
  \<open>getSafestDirection\<close>: \<open>lowestDanger\<close> starts at \<open>Infinity\<close> and \<open>safest\<close> at
  \<open>null\<close>.
\<close>

datatype danger = Infinity | Level int

fun dangerBelow :: "int \<Rightarrow> danger \<Rightarrow> bool" where
  "dangerBelow d Infinity = True"
| "dangerBelow d (Level l) = (d < l)"

definition scanDirection ::
  "DangerZone list \<Rightarrow> direction \<Rightarrow> direction option \<times> danger \<Rightarrow> direction option \<times> danger" where
  "scanDirection zones dir acc =
     (let d = (case find (\<lambda>z. zone_direction z = Heading dir) zones of
                 None \<Rightarrow> 0 | Some zone \<Rightarrow> zone_level zone)
      in if dangerBelow d (snd acc) then (Some dir, Level d) else acc)"

definition getSafestDirection :: "DangerPredictor \<Rightarrow> direction option \<times> danger" where
  "getSafestDirection dp = fold (scanDirection (dangerZones dp)) [Up, Down, Left, Right] (None, Infinity)"

section \<open>PathfindingEngine\<close>

text \<open>
  \<open>src/js/ai/HintSystem.js\<close>, class \<open>PathfindingEngine\<close>: the engine is a
  \<^typ>\<open>board\<close>.
\<close>

subsection \<open>The A* search\<close>

text \<open>
  The values held by \<open>gScore\<close> and \<open>fScore\<close> are JavaScript numbers. \<open>Map.get\<close> on a
  missing key gives \<open>undefined\<close>, which arithmetic and comparisons turn into \<open>NaN\<close>;
  every comparison with \<open>NaN\<close> is false.
\<close>

datatype jsnumber = Num int | NaN

definition mapGet :: "(position \<rightharpoonup> jsnumber) \<Rightarrow> position \<Rightarrow> jsnumber" where
  "mapGet m k = (case m k of None \<Rightarrow> NaN | Some v \<Rightarrow> v)"

fun jsPlus :: "jsnumber \<Rightarrow> int \<Rightarrow> jsnumber" where
  "jsPlus (Num a) b = Num (a + b)"
| "jsPlus NaN b = NaN"

fun jsLess :: "jsnumber \<Rightarrow> jsnumber \<Rightarrow> bool" where
  "jsLess (Num a) (Num b) = (a < b)"
| "jsLess a b = False"

fun jsGreaterEq :: "jsnumber \<Rightarrow> jsnumber \<Rightarrow> bool" where
  "jsGreaterEq (Num a) (Num b) = (a \<ge> b)"
| "jsGreaterEq a b = False"

record searchState =
  openSet :: "position list"
  closedSet :: "position set"
  gScore :: "position \<rightharpoonup> jsnumber"
  fScore :: "position \<rightharpoonup> jsnumber"
  cameFrom :: "position \<rightharpoonup> position"

datatype findResult = Null | Path "position list"

definition getNeighbors :: "'a board_scheme \<Rightarrow> position \<Rightarrow> position list" where
  "getNeighbors eng pos = filter (isValidPosition eng) (orthogonal pos)"

definition heuristic :: "position \<Rightarrow> position \<Rightarrow> int" where
  "heuristic pos1 pos2 = \<bar>fst pos1 - fst pos2\<bar> + \<bar>snd pos1 - snd pos2\<bar>"

text \<open>
  \<open>reconstructPath\<close> follows \<open>cameFrom\<close> for as long as the current cell has an entry,
  putting each parent in front of the path. The loop has no bound of its own: \<open>None\<close>
  is a run that never ends.
\<close>

partial_function (option) reconstructLoop ::
  "(position \<rightharpoonup> position) \<Rightarrow> position list \<Rightarrow> position \<Rightarrow> position list option" where
  "reconstructLoop cf path current =
     (case cf current of
        None \<Rightarrow> Some path
      | Some parent \<Rightarrow> reconstructLoop cf (parent # path) parent)"

declare reconstructLoop.simps [code]

definition reconstructPath :: "(position \<rightharpoonup> position) \<Rightarrow> position \<Rightarrow> position list option" where
  "reconstructPath cf current = reconstructLoop cf [current] current"

text \<open>
  The scan for the open node of lowest \<open>fScore\<close>: it starts from \<open>openSet[0]\<close> and
  replaces the candidate only on a strictly smaller score, so the earliest node among
  those of least score is taken.
\<close>

fun lowestFScore ::
  "(position \<rightharpoonup> jsnumber) \<Rightarrow> position list \<Rightarrow> nat \<Rightarrow> position \<times> nat \<Rightarrow> position \<times> nat" where
  "lowestFScore fS [] i acc = acc"
| "lowestFScore fS (node # rest) i acc =
     lowestFScore fS rest (Suc i)
       (if jsLess (mapGet fS node) (mapGet fS (fst acc)) then (node, i) else acc)"

text \<open>The body of the loop over the neighbours of \<open>current\<close>.\<close>

definition visitNeighbor ::
  "position \<Rightarrow> position set \<Rightarrow> position \<Rightarrow> position \<Rightarrow> searchState \<Rightarrow> searchState" where
  "visitNeighbor target obstacleSet current neighbor s =
     (if neighbor \<in> closedSet s \<or> neighbor \<in> obstacleSet then s
      else
        let tentativeGScore = jsPlus (mapGet (gScore s) current) 1;
            s1 = (if neighbor \<in> set (openSet s) then s
                  else s\<lparr>openSet := openSet s @ [neighbor]\<rparr>)
        in if gScore s1 neighbor \<noteq> None \<and> jsGreaterEq tentativeGScore (mapGet (gScore s1) neighbor)
           then s1
           else s1\<lparr>cameFrom := (cameFrom s1)(neighbor \<mapsto> current),
                    gScore := (gScore s1)(neighbor \<mapsto> tentativeGScore),
                    fScore := (fScore s1)(neighbor \<mapsto>
                                jsPlus tentativeGScore (heuristic neighbor target))\<rparr>)"

text \<open>
  The \<open>while (openSet.length > 0)\<close> loop of \<open>findPath\<close>. An empty open set ends it
  with \<open>null\<close>; reaching the target ends it with the reconstructed path.
\<close>

partial_function (option) searchLoop ::
  "board \<Rightarrow> position \<Rightarrow> position set \<Rightarrow> searchState \<Rightarrow> findResult option" where
  "searchLoop eng target obstacleSet s =
     (case openSet s of
        [] \<Rightarrow> Some Null
      | first # rest \<Rightarrow>
          let sel = lowestFScore (fScore s) rest 1 (first, 0);
              current = fst sel;
              currentIndex = snd sel;
              s1 = s\<lparr>openSet := take currentIndex (openSet s) @ drop (Suc currentIndex) (openSet s),
                      closedSet := insert current (closedSet s)\<rparr>
          in if current = target then map_option Path (reconstructPath (cameFrom s1) current)
             else searchLoop eng target obstacleSet
                    (fold (visitNeighbor target obstacleSet current) (getNeighbors eng current) s1))"

declare searchLoop.simps [code]

definition findPath :: "board \<Rightarrow> position \<Rightarrow> position \<Rightarrow> position list \<Rightarrow> findResult option" where
  "findPath eng start target obstacles =
     (if isValidPosition eng start \<and> isValidPosition eng target then
        (let obstacleSet = set obstacles
         in if target \<in> obstacleSet then Some Null
            else searchLoop eng target obstacleSet
                   \<lparr> openSet = [start], closedSet = {},
                     gScore = [start \<mapsto> Num 0],
                     fScore = [start \<mapsto> Num (heuristic start target)],
                     cameFrom = Map.empty \<rparr>)
      else Some Null)"

subsection \<open>Safe moves and fallback suggestions\<close>

definition findSafeMoves :: "'a board_scheme \<Rightarrow> position \<Rightarrow> position list \<Rightarrow> direction list" where
  "findSafeMoves eng pos obstacles =
     (let obstacleSet = set obstacles;
          candidates = [(Up, (fst pos, snd pos - 1)), (Down, (fst pos, snd pos + 1)),
                        (Left, (fst pos - 1, snd pos)), (Right, (fst pos + 1, snd pos))]
      in map fst (filter (\<lambda>move. isValidPosition eng (snd move) \<and> snd move \<notin> obstacleSet)
                         candidates))"

fun getMovePosition :: "position \<Rightarrow> direction \<Rightarrow> position" where
  "getMovePosition pos Up = (fst pos, snd pos - 1)"
| "getMovePosition pos Down = (fst pos, snd pos + 1)"
| "getMovePosition pos Left = (fst pos - 1, snd pos)"
| "getMovePosition pos Right = (fst pos + 1, snd pos)"

definition calculateSpaceScore :: "'a board_scheme \<Rightarrow> position \<Rightarrow> position list \<Rightarrow> int" where
  "calculateSpaceScore eng pos obstacles =
     int (length (filter (\<lambda>neighbor. neighbor \<notin> set obstacles) (getNeighbors eng pos)))"

text \<open>
  \<open>calculateCenterScore\<close> divides by \<open>max(boardWidth / 2, boardHeight / 2)\<close>, which is
  positive on every board that has a valid position; the scores are computed for valid
  positions only. The square root and the quotient are those of the real numbers.
\<close>

definition calculateCenterScore :: "'a board_scheme \<Rightarrow> position \<Rightarrow> real" where
  "calculateCenterScore eng pos =
     (let centerX = real_of_int (boardWidth eng) / 2;
          centerY = real_of_int (boardHeight eng) / 2;
          maxDistance = max centerX centerY;
          distance = sqrt ((real_of_int (fst pos) - centerX)\<^sup>2 + (real_of_int (snd pos) - centerY)\<^sup>2)
      in max 0 (4 - (distance / maxDistance) * 4))"

definition calculateMobilityScore :: "'a board_scheme \<Rightarrow> position \<Rightarrow> position list \<Rightarrow> real" where
  "calculateMobilityScore eng pos obstacles =
     (let obstacleSet = set obstacles;
          totalFutureMoves =
            sum_list (map (\<lambda>neighbor.
                             if neighbor \<notin> obstacleSet
                             then int (length (filter (\<lambda>fn. fn \<notin> obstacleSet \<and> fn \<noteq> pos)
                                                      (getNeighbors eng neighbor)))
                             else 0)
                          (getNeighbors eng pos))
      in min 4 (real_of_int totalFutureMoves / 2))"

definition calculateMoveScore :: "'a board_scheme \<Rightarrow> position \<Rightarrow> position \<Rightarrow> position list \<Rightarrow> real" where
  "calculateMoveScore eng movePos target obstacles =
     (let distanceToTarget = heuristic movePos target;
          score1 = real_of_int (max 0 (50 - distanceToTarget));
          spaceScore = calculateSpaceScore eng movePos obstacles;
          score2 = score1 + real_of_int (spaceScore * 10);
          centerScore = calculateCenterScore eng movePos;
          score3 = score2 + centerScore * 5;
          mobilityScore = calculateMobilityScore eng movePos obstacles
      in score3 + mobilityScore * 15)"

fun joinWith :: "string \<Rightarrow> string list \<Rightarrow> string" where
  "joinWith sep [] = []"
| "joinWith sep [a] = a"
| "joinWith sep (a # b # rest) = a @ sep @ joinWith sep (b # rest)"

definition getMoveReasoning ::
  "'a board_scheme \<Rightarrow> position \<Rightarrow> position \<Rightarrow> position list \<Rightarrow> real \<Rightarrow> string" where
  "getMoveReasoning eng movePos target obstacles sc =
     (let distance = heuristic movePos target;
          spaceScore = calculateSpaceScore eng movePos obstacles;
          r1 = (if distance \<le> 3 then [''close to food'']
                else if distance > 10 then [''far from food''] else []);
          r2 = (if spaceScore \<ge> 3 then r1 @ [''good open space'']
                else if spaceScore \<le> 1 then r1 @ [''limited space''] else r1);
          r3 = (if sc > 80 then r2 @ [''excellent choice'']
                else if sc > 60 then r2 @ [''good option'']
                else if sc > 40 then r2 @ [''acceptable'']
                else r2 @ [''risky move''])
      in joinWith '', '' r3)"

record moveCandidate =
  move_direction :: direction
  move_position :: position
  move_score :: real
  move_reasoning :: string

fun directionName :: "direction \<Rightarrow> string" where
  "directionName Up = ''up''"
| "directionName Down = ''down''"
| "directionName Left = ''left''"
| "directionName Right = ''right''"

definition getOverallReasoning :: "moveCandidate list \<Rightarrow> position \<Rightarrow> string" where
  "getOverallReasoning scoredMoves target =
     (case scoredMoves of
        [] \<Rightarrow> ''No safe moves available''
      | [m] \<Rightarrow> ''Only one safe move: '' @ directionName (move_direction m)
      | m # others \<Rightarrow>
          let bestScore = move_score m;
              worstScore = move_score (last scoredMoves)
          in if bestScore > 80 then ''Multiple good options available''
             else if bestScore > 60 then ''Some decent moves available''
             else if worstScore < 30 then ''All moves are risky - choose carefully''
             else ''Limited but viable options'')"

definition getPriorityLevel :: "nat \<Rightarrow> real \<Rightarrow> string" where
  "getPriorityLevel moveCount bestScore =
     (if moveCount = 0 then ''critical''
      else if moveCount = 1 \<or> bestScore < 40 then ''high''
      else if bestScore < 60 then ''medium''
      else ''low'')"

record fallbackSuggestions =
  moves :: "moveCandidate list"
  reasoning :: string
  priority :: string

definition scoreMove ::
  "'a board_scheme \<Rightarrow> position \<Rightarrow> position \<Rightarrow> position list \<Rightarrow> direction \<Rightarrow> moveCandidate" where
  "scoreMove eng pos target obstacles dir =
     (let movePos = getMovePosition pos dir;
          sc = calculateMoveScore eng movePos target obstacles
      in \<lparr> move_direction = dir, move_position = movePos, move_score = sc,
           move_reasoning = getMoveReasoning eng movePos target obstacles sc \<rparr>)"

text \<open>
  \<open>scoredMoves.sort((a, b) => b.score - a.score)\<close> is a stable sort by descending
  score: \<^const>\<open>sort_key\<close> on the negated score.
\<close>

definition getFallbackSuggestions ::
  "'a board_scheme \<Rightarrow> position \<Rightarrow> position \<Rightarrow> position list \<Rightarrow> fallbackSuggestions" where
  "getFallbackSuggestions eng pos target obstacles =
     (let safeMoves = findSafeMoves eng pos obstacles
      in if length safeMoves = 0
         then \<lparr> moves = [], reasoning = ''No safe moves available - game over imminent'',
                priority = ''critical'' \<rparr>
         else
           let scoredMoves = sort_key (\<lambda>m. - move_score m)
                               (map (scoreMove eng pos target obstacles) safeMoves)
           in \<lparr> moves = scoredMoves,
                reasoning = getOverallReasoning scoredMoves target,
                priority = getPriorityLevel (length scoredMoves)
                             (case scoredMoves of [] \<Rightarrow> 0 | m # others \<Rightarrow> move_score m) \<rparr>)"

section \<open>Vocabulary of the properties\<close>

subsection \<open>Difficulty\<close>

definition speedInRange :: "DifficultyManager \<Rightarrow> bool" where
  "speedInRange d \<longleftrightarrow> minSpeed d \<le> currentSpeed d \<and> currentSpeed d \<le> maxSpeed d"

definition sameBounds :: "DifficultyManager \<Rightarrow> DifficultyManager \<Rightarrow> bool" where
  "sameBounds d d' \<longleftrightarrow> minSpeed d' = minSpeed d \<and> maxSpeed d' = maxSpeed d \<and>
     speedAdjustmentAmount d' = speedAdjustmentAmount d"

definition threeCollections :: "int \<Rightarrow> int \<Rightarrow> int \<Rightarrow> DifficultyManager \<Rightarrow> DifficultyManager" where
  "threeCollections t1 t2 t3 d =
     recordFoodCollection t3 30 6 (recordFoodCollection t2 20 5 (recordFoodCollection t1 10 4 d))"

text \<open>Eighteen food collections from a fresh manager: six steps down, from 150 to 60.\<close>

definition afterEighteen :: DifficultyManager where
  "afterEighteen = applyEvents (replicate 18 (FoodCollected 1000 10 4)) newDifficultyManager"

text \<open>
  A strong game (score 200, 40 seconds), and the manager in the third game of a session
  whose first two games were both strong: the second game end met
  \<open>recentDeaths >= 2\<close>, eased the speed to 165 and reset \<open>recentDeaths\<close> to 0; two
  foods have been collected in the third game, one second apart.
\<close>

definition goodGame :: gameStats where
  "goodGame = \<lparr> stats_score = 200, stats_length = 23, stats_survivalTime = 40000,
                stats_foodCollected = 20 \<rparr>"

definition afterTwoGames :: DifficultyManager where
  "afterTwoGames =
     recordFoodCollection 102000 20 5 (recordFoodCollection 101000 10 4 (initializeGame 100000
       (recordGameEnd 90000 goodGame (initializeGame 50000
         (recordGameEnd 40000 goodGame (initializeGame 0 newDifficultyManager))))))"

definition averageOf :: "(gameData \<Rightarrow> int) \<Rightarrow> gameData list \<Rightarrow> real" where
  "averageOf field games = real_of_int (sum_list (map field games)) / real (length games)"

subsection \<open>Danger zones\<close>

definition levelInRange :: "DangerZone \<Rightarrow> bool" where
  "levelInRange z \<longleftrightarrow> 0 \<le> zone_level z \<and> zone_level z \<le> 100"

text \<open>
  The neighbour of the head in direction \<open>d\<close> is blocked when it is outside the board or
  occupied by the body; a zone that is not labelled \<open>d\<close> and has a level of at least 0;
  a snake along the top edge of the board.
\<close>

definition neighbourBlocked :: "'a board_scheme \<Rightarrow> position \<Rightarrow> position list \<Rightarrow> direction \<Rightarrow> bool" where
  "neighbourBlocked dp h body d \<longleftrightarrow>
     \<not> isValidPosition dp (getMovePosition h d) \<or> getMovePosition h d \<in> set body"

definition notLabelled :: "direction \<Rightarrow> DangerZone \<Rightarrow> bool" where
  "notLabelled d z \<longleftrightarrow> zone_direction z \<noteq> Heading d \<and> 0 \<le> zone_level z"

definition topEdgeSnake :: "position list" where
  "topEdgeSnake = [(5, 0), (4, 0), (3, 0)]"

text \<open>A snake of five segments on a 5 by 5 board, its head at \<open>(1, 0)\<close>.\<close>

definition smallBoard :: DangerPredictor where
  "smallBoard = newDangerPredictor 5 5"

definition hookSnake :: "position list" where
  "hookSnake = [(1, 0), (1, 1), (2, 1), (3, 1), (3, 0)]"

subsection \<open>Fallback moves\<close>

text \<open>A direction is legal from \<open>pos\<close> when the neighbour it leads to is on the board and unoccupied.\<close>

definition legalMove :: "'a board_scheme \<Rightarrow> position \<Rightarrow> position list \<Rightarrow> direction \<Rightarrow> bool" where
  "legalMove eng pos obstacles dir \<longleftrightarrow>
     isValidPosition eng (getMovePosition pos dir) \<and> getMovePosition pos dir \<notin> set obstacles"

definition candidateOf ::
  "'a board_scheme \<Rightarrow> position \<Rightarrow> position \<Rightarrow> position list \<Rightarrow> moveCandidate \<Rightarrow> bool" where
  "candidateOf eng pos target obstacles m \<longleftrightarrow>
     move_position m = getMovePosition pos (move_direction m) \<and>
     move_score m = calculateMoveScore eng (move_position m) target obstacles"

text \<open>
  A 3 by 3 board, whose centre can be boxed in, and a 6 by 8 board with the cells to
  the left and right of \<open>(3, 3)\<close> occupied.
\<close>

definition board3 :: board where
  "board3 = \<lparr> boardWidth = 3, boardHeight = 3 \<rparr>"

definition board68 :: board where
  "board68 = \<lparr> boardWidth = 6, boardHeight = 8 \<rparr>"

definition sides :: "position list" where
  "sides = [(2, 3), (4, 3)]"

definition boxed :: "position list" where
  "boxed = [(0, 1), (1, 0), (2, 1), (1, 2)]"

subsection \<open>Routes on the grid\<close>

text \<open>
  Two cells are one step apart when they differ by exactly one on exactly one axis. A
  route from \<open>a\<close> to \<open>b\<close> is a non-empty list of cells from \<open>a\<close> to \<open>b\<close> whose consecutive
  cells are one step apart and whose cells after the first are on the board and
  outside the obstacle set: it records a sequence of unobstructed unit orthogonal
  moves, the empty sequence being the route \<open>[a]\<close>.
\<close>

definition unitStep :: "position \<Rightarrow> position \<Rightarrow> bool" where
  "unitStep p q \<longleftrightarrow>
     (\<bar>fst p - fst q\<bar> = 1 \<and> snd p = snd q) \<or> (fst p = fst q \<and> \<bar>snd p - snd q\<bar> = 1)"

definition freeCell :: "'a board_scheme \<Rightarrow> position set \<Rightarrow> position \<Rightarrow> bool" where
  "freeCell eng obstacleSet c \<longleftrightarrow> isValidPosition eng c \<and> c \<notin> obstacleSet"

definition route :: "'a board_scheme \<Rightarrow> position set \<Rightarrow> position \<Rightarrow> position \<Rightarrow> position list \<Rightarrow> bool" where
  "route eng obstacleSet a b path \<longleftrightarrow>
     path \<noteq> [] \<and> hd path = a \<and> last path = b \<and> successively unitStep path \<and>
     list_all (freeCell eng obstacleSet) (tl path)"

subsection \<open>The state of the search\<close>

text \<open>
  The number stored for a cell in \<open>gScore\<close>, the cells the search has met, and the
  number stored in a score map.
\<close>

definition gval :: "searchState \<Rightarrow> position \<Rightarrow> int" where
  "gval s n = (case mapGet (gScore s) n of Num g \<Rightarrow> g | NaN \<Rightarrow> 0)"

definition nodes :: "searchState \<Rightarrow> position set" where
  "nodes s = set (openSet s) \<union> closedSet s"

definition fval :: "(position \<rightharpoonup> jsnumber) \<Rightarrow> position \<Rightarrow> int" where
  "fval fS n = (case mapGet fS n of Num v \<Rightarrow> v | NaN \<Rightarrow> 0)"

text \<open>
  The invariant of the \<open>while\<close> loop, in parts. The open list has no duplicates, is
  disjoint from the closed set, and only cells met have a \<open>gScore\<close>. Every cell met has
  numbers stored, \<open>fScore = gScore + heuristic\<close>. The start has score 0 and no parent, and
  is closed as soon as anything is. Every other cell met is free and has a closed
  parent one step away with a score one less. A closed cell's score is at most the
  number of moves of any route to it. Every free neighbour of a closed cell is closed,
  or open with a score at most one more; while the neighbours of \<open>cur\<close> are being
  visited, those still in \<open>todo\<close> are exempt.
\<close>

definition invStruct :: "searchState \<Rightarrow> bool" where
  "invStruct s \<longleftrightarrow> distinct (openSet s) \<and> set (openSet s) \<inter> closedSet s = {} \<and>
     dom (gScore s) \<subseteq> nodes s"

definition invScores :: "position \<Rightarrow> searchState \<Rightarrow> bool" where
  "invScores target s \<longleftrightarrow>
     (\<forall>n \<in> nodes s. gScore s n = Some (Num (gval s n)) \<and>
        fScore s n = Some (Num (gval s n + heuristic n target)) \<and> 0 \<le> gval s n)"

definition invStart :: "'a board_scheme \<Rightarrow> position \<Rightarrow> searchState \<Rightarrow> bool" where
  "invStart eng start s \<longleftrightarrow>
     isValidPosition eng start \<and> gScore s start = Some (Num 0) \<and> cameFrom s start = None \<and>
     (start \<in> closedSet s \<or> (openSet s = [start] \<and> closedSet s = {}))"

definition invParent :: "'a board_scheme \<Rightarrow> position set \<Rightarrow> position \<Rightarrow> searchState \<Rightarrow> bool" where
  "invParent eng obstacleSet start s \<longleftrightarrow>
     (\<forall>n \<in> nodes s. n \<noteq> start \<longrightarrow>
        freeCell eng obstacleSet n \<and>
        (\<exists>p. cameFrom s n = Some p \<and> p \<in> closedSet s \<and> unitStep p n \<and> gval s n = gval s p + 1))"

definition invOptimal :: "'a board_scheme \<Rightarrow> position set \<Rightarrow> position \<Rightarrow> searchState \<Rightarrow> bool" where
  "invOptimal eng obstacleSet start s \<longleftrightarrow>
     (\<forall>n \<in> closedSet s. \<forall>q. route eng obstacleSet start n q \<longrightarrow> gval s n + 1 \<le> int (length q))"

definition invFrontier ::
  "'a board_scheme \<Rightarrow> position set \<Rightarrow> position \<Rightarrow> position list \<Rightarrow> searchState \<Rightarrow> bool" where
  "invFrontier eng obstacleSet cur todo s \<longleftrightarrow>
     (\<forall>n \<in> closedSet s. \<forall>m. unitStep n m \<and> freeCell eng obstacleSet m \<and> \<not> (n = cur \<and> m \<in> set todo) \<longrightarrow>
        m \<in> closedSet s \<or> (m \<in> set (openSet s) \<and> gval s m \<le> gval s n + 1))"

definition searchInv ::
  "'a board_scheme \<Rightarrow> position set \<Rightarrow> position \<Rightarrow> position \<Rightarrow> position \<Rightarrow> position list \<Rightarrow>
   searchState \<Rightarrow> bool" where
  "searchInv eng obstacleSet start target cur todo s \<longleftrightarrow>
     invStruct s \<and> invScores target s \<and> invStart eng start s \<and> invParent eng obstacleSet start s \<and>
     invOptimal eng obstacleSet start s \<and> invFrontier eng obstacleSet cur todo s \<and>
     target \<notin> closedSet s"

text \<open>
  The two ways the loop changes the state: a neighbour gets a better score and the
  current cell as parent (and joins the open list if \<open>ext = [m]\<close>), and the selected cell
  moves from the open list to the closed set.
\<close>

definition relax :: "position \<Rightarrow> position \<Rightarrow> position \<Rightarrow> int \<Rightarrow> position list \<Rightarrow> searchState \<Rightarrow> searchState" where
  "relax target cur m gc ext s =
     s\<lparr>openSet := openSet s @ ext,
       cameFrom := (cameFrom s)(m \<mapsto> cur),
       gScore := (gScore s)(m \<mapsto> Num (gc + 1)),
       fScore := (fScore s)(m \<mapsto> Num (gc + 1 + heuristic m target))\<rparr>"

definition closeNode :: "position \<Rightarrow> nat \<Rightarrow> searchState \<Rightarrow> searchState" where
  "closeNode u j s =
     s\<lparr>openSet := take j (openSet s) @ drop (Suc j) (openSet s), closedSet := insert u (closedSet s)\<rparr>"

text \<open>The state before the first iteration, and what the loop's result means.\<close>

definition initialState :: "position \<Rightarrow> position \<Rightarrow> searchState" where
  "initialState start target =
     \<lparr> openSet = [start], closedSet = {}, gScore = [start \<mapsto> Num 0],
       fScore = [start \<mapsto> Num (heuristic start target)], cameFrom = Map.empty \<rparr>"

definition searchPost ::
  "'a board_scheme \<Rightarrow> position set \<Rightarrow> position \<Rightarrow> position \<Rightarrow> findResult \<Rightarrow> bool" where
  "searchPost eng obstacleSet start target r =
     (case r of
        Null \<Rightarrow> (\<forall>q. \<not> route eng obstacleSet start target q)
      | Path p \<Rightarrow> route eng obstacleSet start target p \<and>
                  (\<forall>q. route eng obstacleSet start target q \<longrightarrow> length p \<le> length q))"

text \<open>A 5 by 5 board with a wall of three cells below the top edge at \<open>x = 1\<close>, and a way round it.\<close>

definition board5 :: board where
  "board5 = \<lparr> boardWidth = 5, boardHeight = 5 \<rparr>"

definition wall :: "position list" where
  "wall = [(1, 0), (1, 1), (1, 2)]"

definition wayRound :: "position list" where
  "wayRound = [(0, 0), (0, 1), (0, 2), (0, 3), (1, 3), (2, 3), (2, 2), (2, 1), (2, 0)]"

text \<open>The empty 10 by 10 board and the path down the left edge and along the bottom edge.\<close>

definition board10 :: board where
  "board10 = \<lparr> boardWidth = 10, boardHeight = 10 \<rparr>"

definition downThenRight :: "position list" where
  "downThenRight =
     [(0, 0), (0, 1), (0, 2), (0, 3), (0, 4), (0, 5), (0, 6), (0, 7), (0, 8), (0, 9),
      (1, 9), (2, 9), (3, 9), (4, 9), (5, 9), (6, 9), (7, 9), (8, 9), (9, 9)]"

text \<open>Two obstacles that cut the corner \<open>(4, 4)\<close> off.\<close>

definition corner :: "position list" where
  "corner = [(3, 4), (4, 3)]"

section \<open>Properties of the difficulty manager\<close>

text \<open>
  Neither operation touches the bounds or the step, and each leaves the speed within
  the bounds when the step is not negative.
\<close>

lemma recordFoodCollection_inv:
  assumes "0 \<le> speedAdjustmentAmount d" and "speedInRange d"
  shows "sameBounds d (recordFoodCollection t sc len d) \<and>
         speedInRange (recordFoodCollection t sc len d)"
  using assms
  by (auto simp: sameBounds_def speedInRange_def recordFoodCollection_def
      increaseDifficulty_def Let_def)

lemma recordGameEnd_inv:
  assumes "0 \<le> speedAdjustmentAmount d" and "speedInRange d"
  shows "sameBounds d (recordGameEnd t st d) \<and> speedInRange (recordGameEnd t st d)"
  using assms
  by (auto simp: sameBounds_def speedInRange_def recordGameEnd_def
      analyzePerformanceAndAdjust_def increaseDifficulty_def decreaseDifficulty_def Let_def)

lemma applyEvents_inv:
  "0 \<le> speedAdjustmentAmount d \<Longrightarrow> speedInRange d \<Longrightarrow>
   sameBounds d (applyEvents evs d) \<and> speedInRange (applyEvents evs d)"
  unfolding applyEvents_def
proof (induction evs arbitrary: d)
  case Nil
  then show ?case by (simp add: sameBounds_def)
next
  case (Cons e evs)
  have step: "sameBounds d (applyEvent d e) \<and> speedInRange (applyEvent d e)"
    using Cons.prems by (cases e) (simp_all add: recordFoodCollection_inv recordGameEnd_inv)
  then have "0 \<le> speedAdjustmentAmount (applyEvent d e)"
    using Cons.prems(1) by (simp add: sameBounds_def)
  from Cons.IH[OF this] step show ?case by (simp add: sameBounds_def)
qed

text \<open>
  C7. From any state whose \<open>currentSpeed\<close> is within \<open>[minSpeed, maxSpeed]\<close> (the step
  being non-negative, as the constructor's 15 is), every finite sequence of
  \<open>recordFoodCollection\<close> and \<open>recordGameEnd\<close> calls leaves the bounds as they were and
  \<open>currentSpeed\<close> within them; with the constructor's bounds that is \<open>[50, 300]\<close>.
\<close>

theorem speed_stays_in_range:
  assumes "0 \<le> speedAdjustmentAmount d"
    and "minSpeed d \<le> currentSpeed d" and "currentSpeed d \<le> maxSpeed d"
  shows "minSpeed (applyEvents evs d) = minSpeed d \<and> maxSpeed (applyEvents evs d) = maxSpeed d \<and>
         minSpeed d \<le> currentSpeed (applyEvents evs d) \<and>
         currentSpeed (applyEvents evs d) \<le> maxSpeed d"
  using applyEvents_inv[of d evs] assms by (simp add: sameBounds_def speedInRange_def)

theorem speed_stays_in_range_witness:
  "0 \<le> speedAdjustmentAmount newDifficultyManager \<and>
   minSpeed newDifficultyManager = 50 \<and> maxSpeed newDifficultyManager = 300 \<and>
   minSpeed newDifficultyManager \<le> currentSpeed newDifficultyManager \<and>
   currentSpeed newDifficultyManager \<le> maxSpeed newDifficultyManager \<and>
   50 \<le> currentSpeed (applyEvents [FoodCollected 1000 10 4, GameEnded 2000 goodGame,
                                       GameEnded 3000 goodGame] newDifficultyManager) \<and>
   currentSpeed (applyEvents [FoodCollected 1000 10 4, GameEnded 2000 goodGame,
                              GameEnded 3000 goodGame] newDifficultyManager) \<le> 300"
proof -
  have c: "0 \<le> speedAdjustmentAmount newDifficultyManager"
    "minSpeed newDifficultyManager \<le> currentSpeed newDifficultyManager"
    "currentSpeed newDifficultyManager \<le> maxSpeed newDifficultyManager"
    and b: "minSpeed newDifficultyManager = 50" "maxSpeed newDifficultyManager = 300"
    by (simp_all add: newDifficultyManager_def)
  show ?thesis
    using c b speed_stays_in_range[OF c, of "[FoodCollected 1000 10 4, GameEnded 2000 goodGame,
      GameEnded 3000 goodGame]"] by simp
qed

text \<open>
  C8, as the code has it. From a state with \<open>consecutiveSuccesses = 0\<close>, three
  \<open>recordFoodCollection\<close> calls in a row set \<open>currentSpeed\<close> to
  \<open>max(minSpeed, currentSpeed - 15)\<close> and leave \<open>consecutiveSuccesses\<close> at 0. The speed
  drops by exactly 15 when it was at least \<open>minSpeed + 15\<close>; from 150 it becomes 135.
\<close>

theorem three_collections_one_clamped_step:
  assumes "configured d" and "consecutiveSuccesses d = 0"
  shows "currentSpeed (threeCollections t1 t2 t3 d) = max (minSpeed d) (currentSpeed d - 15) \<and>
         consecutiveSuccesses (threeCollections t1 t2 t3 d) = 0 \<and>
         (currentSpeed d \<ge> minSpeed d + 15 \<longrightarrow>
            currentSpeed (threeCollections t1 t2 t3 d) = currentSpeed d - 15) \<and>
         (currentSpeed d = 150 \<longrightarrow> currentSpeed (threeCollections t1 t2 t3 d) = 135)"
  using assms
  by (simp add: threeCollections_def configured_def recordFoodCollection_def
      increaseDifficulty_def Let_def)

theorem three_collections_one_clamped_step_witness:
  "configured newDifficultyManager \<and> consecutiveSuccesses newDifficultyManager = 0 \<and>
   currentSpeed newDifficultyManager = 150 \<and>
   currentSpeed (threeCollections 1000 2000 3000 newDifficultyManager) = 135 \<and>
   consecutiveSuccesses (threeCollections 1000 2000 3000 newDifficultyManager) = 0"
proof -
  have c: "configured newDifficultyManager" "consecutiveSuccesses newDifficultyManager = 0"
    "currentSpeed newDifficultyManager = 150"
    by (simp_all add: configured_def newDifficultyManager_def)
  show ?thesis
    using three_collections_one_clamped_step[OF c(1,2), of 1000 2000 3000] c by simp
qed

text \<open>
  C8 as stated fails at speed 60, which eighteen food collections reach from a fresh
  manager: the speed is not at \<open>minSpeed\<close>, and three more collections lower it by 10,
  to 50, not by 15.
\<close>

theorem three_collections_from_sixty:
  "consecutiveSuccesses afterEighteen = 0 \<and> currentSpeed afterEighteen = 60 \<and>
   minSpeed afterEighteen = 50 \<and>
   currentSpeed (threeCollections 2000 3000 4000 afterEighteen) = 50"
  unfolding afterEighteen_def threeCollections_def by code_simp

text \<open>
  The branch of \<open>analyzePerformanceAndAdjust\<close> that makes the game harder asks for
  \<open>recentDeaths === 0\<close>, and \<open>recordGameEnd\<close> has incremented \<open>recentDeaths\<close> just before:
  a game end never lowers \<open>currentSpeed\<close>.
\<close>

lemma recordGameEnd_never_harder:
  "recentDeaths d \<ge> 0 \<Longrightarrow> speedAdjustmentAmount d \<ge> 0 \<Longrightarrow> currentSpeed d \<le> maxSpeed d \<Longrightarrow>
   currentSpeed (recordGameEnd now st d) \<ge> currentSpeed d"
  by (auto simp: recordGameEnd_def analyzePerformanceAndAdjust_def decreaseDifficulty_def
      increaseDifficulty_def Let_def)

text \<open>
  C9, the code at an input that meets every condition of the claim: \<open>recentDeaths\<close> is 0
  and the history holds 2 entries before the call; after the call the last three
  entries average a score of 200 and a survival of 40000 ms, and the sample's average
  collection interval is 1000 ms. The claim asks for the speed to go from 165 to 150;
  it stays at 165.
\<close>

theorem game_end_when_performing_well:
  "recentDeaths afterTwoGames = 0 \<and> length (performanceHistory afterTwoGames) = 2 \<and>
   currentSpeed afterTwoGames = 165 \<and> minSpeed afterTwoGames = 50 \<and>
   speedAdjustmentAmount afterTwoGames = 15 \<and>
   averageOf score (lastThree (performanceHistory (recordGameEnd 140000 goodGame afterTwoGames))) = 200 \<and>
   averageOf survivalTime (lastThree (performanceHistory (recordGameEnd 140000 goodGame afterTwoGames))) = 40000 \<and>
   averageCollectionTime (last (performanceHistory (recordGameEnd 140000 goodGame afterTwoGames))) = 1000 \<and>
   currentSpeed (recordGameEnd 140000 goodGame afterTwoGames) = 165"
  unfolding afterTwoGames_def goodGame_def averageOf_def by code_simp

section \<open>Properties of the danger predictor\<close>

lemma fold_preserves: "(\<And>x s. P s \<Longrightarrow> P (f x s)) \<Longrightarrow> P s \<Longrightarrow> P (fold f xs s)"
  by (induction xs arbitrary: s) simp_all

lemma calculateWallProximity_nonneg: "0 \<le> calculateWallProximity dp pos"
  by (simp add: calculateWallProximity_def Let_def)

lemma calculateBodyProximity_nonneg: "0 \<le> calculateBodyProximity pos body"
  by (simp add: calculateBodyProximity_def Let_def)

lemma calculateDangerLevel_bounds:
  "0 \<le> calculateDangerLevel dp pos body food \<and> calculateDangerLevel dp pos body food \<le> 100"
proof -
  have "0 \<le> calculateWallProximity dp pos * 10" "0 \<le> calculateBodyProximity pos body * 15"
    using calculateWallProximity_nonneg[of dp pos] calculateBodyProximity_nonneg[of pos body]
    by simp_all
  then show ?thesis
    by (simp add: calculateDangerLevel_def Let_def)
qed

lemma analyzeDirection_levels:
  "list_all levelInRange zones \<Longrightarrow>
   list_all levelInRange (analyzeDirection dp h body food dir zones)"
  using calculateDangerLevel_bounds[of dp _ body food]
  by (simp add: analyzeDirection_def Let_def levelInRange_def)

lemma probeCell_levels:
  "list_all levelInRange zones \<Longrightarrow> list_all levelInRange (probeCell dp obst pos zones)"
  by (simp add: probeCell_def levelInRange_def split: option.splits)

text \<open>
  C5. Whatever the head, the body and the food position, every zone that \<open>analyze\<close>
  records, for a neighbour of the head or for a corridor trap, has a level between 0
  and 100.
\<close>

theorem danger_levels_in_range:
  "list_all levelInRange (dangerZones (analyze h body food dp))"
proof (cases "enabled dp")
  case True
  have "list_all levelInRange (fold (analyzeDirection dp h body food) headings [])"
    by (rule fold_preserves) (simp_all add: analyzeDirection_levels)
  then have "list_all levelInRange
      (detectCorridorTraps dp h body (fold (analyzeDirection dp h body food) headings []))"
    unfolding detectCorridorTraps_def
    by (rule fold_preserves[rotated]) (simp add: probeCell_levels)
  then show ?thesis using True by (simp add: analyze_def)
next
  case False
  then show ?thesis by (simp add: analyze_def)
qed

theorem danger_levels_in_range_witness:
  "map zone_level (dangerZones (analyze (1, 0) hookSnake (0, 4) smallBoard)) = [100, 100, 40] \<and>
   list_all levelInRange (dangerZones (analyze (1, 0) hookSnake (0, 4) smallBoard))"
proof -
  have "map zone_level (dangerZones (analyze (1, 0) hookSnake (0, 4) smallBoard)) = [100, 100, 40]"
    unfolding hookSnake_def smallBoard_def by code_simp
  then show ?thesis
    using danger_levels_in_range[of "(1, 0)" hookSnake "(0, 4)" smallBoard] by simp
qed

text \<open>
  C6. A cell with no escape route (no neighbour that is on the board and outside the
  body) has danger level exactly 100, whatever the other four factors add.
\<close>

theorem no_escape_is_100:
  assumes "countEscapeRoutes dp pos (set body) = 0"
  shows "calculateDangerLevel dp pos body food = 100"
proof -
  have "0 \<le> calculateWallProximity dp pos * 10" "0 \<le> calculateBodyProximity pos body * 15"
    using calculateWallProximity_nonneg[of dp pos] calculateBodyProximity_nonneg[of pos body]
    by simp_all
  then show ?thesis using assms
    by (simp add: calculateDangerLevel_def Let_def)
qed

theorem no_escape_is_100_witness:
  "countEscapeRoutes smallBoard (2, 0) (set hookSnake) = 0 \<and>
   calculateDangerLevel smallBoard (2, 0) hookSnake (0, 4) = 100"
proof -
  have z: "countEscapeRoutes smallBoard (2, 0) (set hookSnake) = 0"
    by (simp add: countEscapeRoutes_def orthogonal_def isValidPosition_def
        smallBoard_def newDangerPredictor_def hookSnake_def)
  show ?thesis using z no_escape_is_100[OF z, of "(0, 4)"] by simp
qed

lemma fold_preserves_in:
  "(\<And>x s. x \<in> set xs \<Longrightarrow> P s \<Longrightarrow> P (f x s)) \<Longrightarrow> P s \<Longrightarrow> P (fold f xs s)"
  by (induction xs arbitrary: s) simp_all

lemma headings_cell:
  "dir \<in> set headings \<Longrightarrow>
   (fst h + fst dir, snd h + fst (snd dir)) = getMovePosition h (snd (snd dir))"
  by (auto simp: headings_def)

lemma analyzeDirection_notLabelled:
  assumes "dir \<in> set headings" "neighbourBlocked dp h body d" "list_all (notLabelled d) zones"
  shows "list_all (notLabelled d) (analyzeDirection dp h body food dir zones)"
proof (cases "snd (snd dir) = d")
  case True
  then have "analyzeDirection dp h body food dir zones = zones"
    using assms(2) headings_cell[OF assms(1), of h]
    by (auto simp: analyzeDirection_def neighbourBlocked_def Let_def)
  then show ?thesis using assms(3) by simp
next
  case False
  then show ?thesis using assms(3)
    by (simp add: analyzeDirection_def Let_def notLabelled_def)
qed

lemma probeCell_notLabelled:
  "list_all (notLabelled d) zones \<Longrightarrow> list_all (notLabelled d) (probeCell dp obst pos zones)"
  by (simp add: probeCell_def notLabelled_def split: option.splits)

lemma analyze_notLabelled:
  assumes "neighbourBlocked dp h body d"
  shows "list_all (notLabelled d) (dangerZones (analyze h body food dp))"
proof (cases "enabled dp")
  case True
  have "list_all (notLabelled d) (fold (analyzeDirection dp h body food) headings [])"
    by (rule fold_preserves_in) (simp_all add: analyzeDirection_notLabelled[OF _ assms])
  then have "list_all (notLabelled d)
      (detectCorridorTraps dp h body (fold (analyzeDirection dp h body food) headings []))"
    unfolding detectCorridorTraps_def
    by (rule fold_preserves_in[rotated]) (simp add: probeCell_notLabelled)
  then show ?thesis using True by (simp add: analyze_def)
next
  case False
  then show ?thesis by (simp add: analyze_def)
qed

lemma find_label_none:
  "list_all (notLabelled d) zones \<Longrightarrow> find (\<lambda>z. zone_direction z = Heading d) zones = None"
  by (induction zones) (simp_all add: notLabelled_def)

lemma find_level_nonneg:
  "list_all (notLabelled d) zones \<Longrightarrow>
   0 \<le> (case find P zones of None \<Rightarrow> 0 | Some zone \<Rightarrow> zone_level zone)"
  by (induction zones) (simp_all add: notLabelled_def)

lemma scanDirection_keeps_up:
  "list_all (notLabelled d) zones \<Longrightarrow>
   scanDirection zones dir (Some Up, Level 0) = (Some Up, Level 0)"
  using find_level_nonneg[of d zones "\<lambda>z. zone_direction z = Heading dir"]
  by (simp add: scanDirection_def Let_def)

text \<open>
  C10. \<open>analyze\<close> records no zone labelled with a direction whose neighbour of the head
  is outside the board or occupied, and \<open>getSafestDirection\<close> reads a missing zone as
  severity 0. When the blocked direction is \<open>'up'\<close>, the first one scanned, nothing later
  is strictly below 0 and the answer is \<open>'up'\<close> with danger level 0. The witness is a
  head on the top edge of a 20 by 20 board, where moving down is legal.
\<close>

theorem safest_direction_can_be_blocked:
  "(neighbourBlocked dp h body d \<longrightarrow>
      find (\<lambda>z. zone_direction z = Heading d) (dangerZones (analyze h body food dp)) = None) \<and>
   (neighbourBlocked dp h body Up \<longrightarrow>
      getSafestDirection (analyze h body food dp) = (Some Up, Level 0))"
proof (intro conjI impI)
  assume "neighbourBlocked dp h body d"
  then show "find (\<lambda>z. zone_direction z = Heading d) (dangerZones (analyze h body food dp)) = None"
    by (intro find_label_none analyze_notLabelled)
next
  let ?zones = "dangerZones (analyze h body food dp)"
  assume "neighbourBlocked dp h body Up"
  then have nu: "list_all (notLabelled Up) ?zones" by (rule analyze_notLabelled)
  have "scanDirection ?zones Up (None, Infinity) = (Some Up, Level 0)"
    by (simp add: scanDirection_def find_label_none[OF nu])
  then show "getSafestDirection (analyze h body food dp) = (Some Up, Level 0)"
    by (simp add: getSafestDirection_def scanDirection_keeps_up[OF nu])
qed

theorem safest_direction_can_be_blocked_witness:
  "neighbourBlocked (newDangerPredictor 20 20) (5, 0) topEdgeSnake Up \<and>
   \<not> isValidPosition (newDangerPredictor 20 20) (getMovePosition (5, 0) Up) \<and>
   \<not> neighbourBlocked (newDangerPredictor 20 20) (5, 0) topEdgeSnake Down \<and>
   find (\<lambda>z. zone_direction z = Heading Up)
     (dangerZones (analyze (5, 0) topEdgeSnake (5, 5) (newDangerPredictor 20 20))) = None \<and>
   getSafestDirection (analyze (5, 0) topEdgeSnake (5, 5) (newDangerPredictor 20 20))
     = (Some Up, Level 0)"
proof -
  have a: "neighbourBlocked (newDangerPredictor 20 20) (5, 0) topEdgeSnake Up"
    "\<not> isValidPosition (newDangerPredictor 20 20) (getMovePosition (5, 0) Up)"
    "\<not> neighbourBlocked (newDangerPredictor 20 20) (5, 0) topEdgeSnake Down"
    by (simp_all add: neighbourBlocked_def isValidPosition_def newDangerPredictor_def topEdgeSnake_def)
  show ?thesis
    using safest_direction_can_be_blocked[of "newDangerPredictor 20 20" "(5, 0)" topEdgeSnake Up "(5, 5)"] a
    by simp
qed

section \<open>Properties of the fallback suggestions\<close>

lemma findSafeMoves_legal:
  "findSafeMoves eng pos obstacles = filter (legalMove eng pos obstacles) [Up, Down, Left, Right]"
  by (simp add: findSafeMoves_def legalMove_def Let_def)

lemma moves_getFallbackSuggestions:
  "moves (getFallbackSuggestions eng pos target obstacles) =
   sort_key (\<lambda>m. - move_score m)
     (map (scoreMove eng pos target obstacles) (findSafeMoves eng pos obstacles))"
  by (simp add: getFallbackSuggestions_def Let_def)

lemma sorted_descending:
  "sorted (map (\<lambda>m. - move_score m) ms) \<Longrightarrow>
   sorted_wrt (\<lambda>a b. move_score a \<ge> move_score b) ms"
  by (induction ms) auto

text \<open>
  C4. The moves of \<open>getFallbackSuggestions\<close> hold exactly one candidate for each legal
  direction (as multisets, the candidates' directions are the legal ones among up,
  down, left, right); each candidate carries the neighbour in its direction and that
  neighbour's score; the list is in descending order of score; and it is empty
  exactly when no direction is legal.
\<close>

theorem fallback_moves_ranked:
  "mset (map move_direction (moves (getFallbackSuggestions eng pos target obstacles)))
     = mset (filter (legalMove eng pos obstacles) [Up, Down, Left, Right]) \<and>
   list_all (candidateOf eng pos target obstacles)
     (moves (getFallbackSuggestions eng pos target obstacles)) \<and>
   sorted_wrt (\<lambda>a b. move_score a \<ge> move_score b)
     (moves (getFallbackSuggestions eng pos target obstacles)) \<and>
   (moves (getFallbackSuggestions eng pos target obstacles) = [] \<longleftrightarrow>
      filter (legalMove eng pos obstacles) [Up, Down, Left, Right] = [])"
proof -
  let ?ms = "moves (getFallbackSuggestions eng pos target obstacles)"
  let ?un = "map (scoreMove eng pos target obstacles) (findSafeMoves eng pos obstacles)"
  have m: "mset ?ms = mset ?un" by (simp add: moves_getFallbackSuggestions)
  have "mset (map move_direction ?ms) = mset (map move_direction ?un)"
    using m by (metis mset_map)
  also have "map move_direction ?un = findSafeMoves eng pos obstacles"
    by (simp add: scoreMove_def Let_def comp_def)
  finally have 1: "mset (map move_direction ?ms)
      = mset (filter (legalMove eng pos obstacles) [Up, Down, Left, Right])"
    by (simp add: findSafeMoves_legal)
  have "set ?ms = set ?un" using m by (metis set_mset_mset)
  moreover have "\<forall>m \<in> set ?un. candidateOf eng pos target obstacles m"
    by (auto simp: candidateOf_def scoreMove_def Let_def)
  ultimately have 2: "list_all (candidateOf eng pos target obstacles) ?ms"
    by (simp add: list_all_iff)
  have 3: "sorted_wrt (\<lambda>a b. move_score a \<ge> move_score b) ?ms"
    by (rule sorted_descending) (simp add: moves_getFallbackSuggestions)
  have 4: "?ms = [] \<longleftrightarrow> filter (legalMove eng pos obstacles) [Up, Down, Left, Right] = []"
    using 1 by (metis mset_zero_iff map_is_Nil_conv)
  show ?thesis using 1 2 3 4 by blast
qed

text \<open>
  On the 6 by 8 board the moves up and down from \<open>(3, 3)\<close> score 155 and 167 towards
  the target \<open>(3, 7)\<close>; the distances to the centre \<open>(3, 4)\<close> are 2 and 0.
\<close>

lemma sides_space:
  "calculateSpaceScore board68 (3, 2) sides = 4" "calculateSpaceScore board68 (3, 4) sides = 4"
  unfolding board68_def sides_def by code_simp+

lemma sides_mobility:
  "calculateMobilityScore board68 (3, 2) sides = 4"
  "calculateMobilityScore board68 (3, 4) sides = 4"
  unfolding board68_def sides_def by code_simp+

lemma sides_centre:
  "calculateCenterScore board68 (3, 2) = 2" "calculateCenterScore board68 (3, 4) = 4"
  by (simp_all add: calculateCenterScore_def board68_def Let_def)

lemma sides_scores:
  "calculateMoveScore board68 (3, 2) (3, 7) sides = 155"
  "calculateMoveScore board68 (3, 4) (3, 7) sides = 167"
  by (simp_all add: calculateMoveScore_def heuristic_def sides_space sides_mobility
      sides_centre Let_def)

lemma sides_safe: "findSafeMoves board68 (3, 3) sides = [Up, Down]"
  by (simp add: findSafeMoves_def isValidPosition_def board68_def sides_def Let_def)

lemma sides_ranked:
  "map (\<lambda>m. (move_direction m, move_score m))
     (moves (getFallbackSuggestions board68 (3, 3) (3, 7) sides)) = [(Down, 167), (Up, 155)]"
  by (simp add: getFallbackSuggestions_def sides_safe scoreMove_def sides_scores Let_def)

theorem fallback_moves_ranked_witness:
  "filter (legalMove board68 (3, 3) sides) [Up, Down, Left, Right] = [Up, Down] \<and>
   map (\<lambda>m. (move_direction m, move_score m))
     (moves (getFallbackSuggestions board68 (3, 3) (3, 7) sides)) = [(Down, 167), (Up, 155)] \<and>
   mset (map move_direction (moves (getFallbackSuggestions board68 (3, 3) (3, 7) sides)))
     = mset [Up, Down] \<and>
   sorted_wrt (\<lambda>a b. move_score a \<ge> move_score b)
     (moves (getFallbackSuggestions board68 (3, 3) (3, 7) sides)) \<and>
   filter (legalMove board3 (1, 1) boxed) [Up, Down, Left, Right] = [] \<and>
   moves (getFallbackSuggestions board3 (1, 1) (2, 2) boxed) = []"
proof -
  have two: "filter (legalMove board68 (3, 3) sides) [Up, Down, Left, Right] = [Up, Down]"
    using sides_safe by (simp only: findSafeMoves_legal)
  have none: "filter (legalMove board3 (1, 1) boxed) [Up, Down, Left, Right] = []"
    by (simp add: legalMove_def board3_def boxed_def isValidPosition_def)
  note r = fallback_moves_ranked[of board68 "(3, 3)" "(3, 7)" sides]
  from r have m: "mset (map move_direction (moves (getFallbackSuggestions board68 (3, 3) (3, 7) sides)))
     = mset [Up, Down]" unfolding two by blast
  from r have d: "sorted_wrt (\<lambda>a b. move_score a \<ge> move_score b)
     (moves (getFallbackSuggestions board68 (3, 3) (3, 7) sides))" by blast
  from fallback_moves_ranked[of board3 "(1, 1)" "(2, 2)" boxed] none
  have e: "moves (getFallbackSuggestions board3 (1, 1) (2, 2) boxed) = []" by simp
  show ?thesis using two sides_ranked m d none e by blast
qed

section \<open>Properties of the path search\<close>

subsection \<open>Steps and routes\<close>

lemma unitStep_orthogonal: "unitStep p q \<longleftrightarrow> q \<in> set (orthogonal p)"
  by (cases p; cases q) (auto simp: unitStep_def orthogonal_def)

lemma unitStep_getNeighbors: "q \<in> set (getNeighbors eng p) \<longleftrightarrow> unitStep p q \<and> isValidPosition eng q"
  by (auto simp: getNeighbors_def unitStep_orthogonal)

lemma unitStep_heuristic: "unitStep p q \<Longrightarrow> heuristic p t \<le> heuristic q t + 1"
  by (auto simp: unitStep_def heuristic_def)

lemma steps_heuristic:
  "successively unitStep (d # ds) \<Longrightarrow> heuristic d t \<le> heuristic (last (d # ds)) t + int (length ds)"
proof (induction ds arbitrary: d)
  case Nil
  then show ?case by simp
next
  case (Cons e es)
  then have "unitStep d e" "successively unitStep (e # es)" by simp_all
  then show ?case using Cons.IH[of e] unitStep_heuristic[of d e t] by simp
qed

lemma route_single: "route eng obstacleSet a a [a]"
  by (simp add: route_def)

lemma route_snoc:
  assumes "route eng obstacleSet a c pre" "unitStep c d" "freeCell eng obstacleSet d"
  shows "route eng obstacleSet a d (pre @ [d])"
  using assms by (simp add: route_def successively_append_iff)

lemma route_Cons:
  "route eng obstacleSet a b path \<longleftrightarrow>
   (\<exists>cs. path = a # cs \<and> last (a # cs) = b \<and> successively unitStep (a # cs) \<and> list_all (freeCell eng obstacleSet) cs)"
  by (cases path) (auto simp: route_def)

lemma route_valid:
  "isValidPosition eng a \<Longrightarrow> route eng obstacleSet a b p \<Longrightarrow>
   list_all (isValidPosition eng) p \<and> list_all (\<lambda>c. c \<notin> obstacleSet) (tl p)"
  by (cases p) (auto simp: route_def freeCell_def list_all_iff)

lemma route_lower_bound:
  assumes "route eng obstacleSet a b q"
  shows "heuristic a b + 1 \<le> int (length q)"
proof -
  from assms obtain cs where qs: "q = a # cs" "last (a # cs) = b" "successively unitStep (a # cs)"
    unfolding route_Cons by blast
  have "heuristic b b = 0" by (simp add: heuristic_def)
  then show ?thesis using steps_heuristic[OF qs(3), of b] qs(1,2) by simp
qed

lemma straight_route:
  "isValidPosition eng a \<Longrightarrow> isValidPosition eng b \<Longrightarrow> nat (heuristic a b) = k \<Longrightarrow>
   \<exists>p. route eng {} a b p \<and> int (length p) = heuristic a b + 1"
proof (induction k arbitrary: b)
  case 0
  then have "a = b" by (cases a; cases b) (auto simp: heuristic_def)
  then show ?case using route_single[of eng "{}" a] by (intro exI[of _ "[a]"]) (simp add: heuristic_def)
next
  case (Suc k)
  define b' where "b' =
    (if fst b > fst a then (fst b - 1, snd b)
     else if fst b < fst a then (fst b + 1, snd b)
     else if snd b > snd a then (fst b, snd b - 1)
     else (fst b, snd b + 1))"
  have h: "heuristic a b = heuristic a b' + 1" "unitStep b' b" "isValidPosition eng b'"
    using Suc.prems unfolding b'_def
    by (cases a; cases b; auto simp: heuristic_def unitStep_def isValidPosition_def)+
  then have "nat (heuristic a b') = k" using Suc.prems(3) by simp
  from Suc.IH[OF Suc.prems(1) h(3) this] obtain p where
    p: "route eng {} a b' p" "int (length p) = heuristic a b' + 1" by blast
  have "route eng {} a b (p @ [b])"
    using p(1) h(2) by (rule route_snoc) (use Suc.prems(2) in \<open>simp add: freeCell_def\<close>)
  then show ?case using p(2) h(1) by (intro exI[of _ "p @ [b]"]) simp
qed

subsection \<open>Selecting the open node of lowest score\<close>

lemma lowestFScore_index:
  "idx < length pre \<Longrightarrow> (pre @ rest) ! idx = cur \<Longrightarrow> i = length pre \<Longrightarrow>
   lowestFScore fS rest i (cur, idx) = (c, j) \<Longrightarrow> j < length (pre @ rest) \<and> (pre @ rest) ! j = c"
proof (induction rest arbitrary: pre i cur idx)
  case Nil
  then show ?case by simp
next
  case (Cons node rest)
  let ?acc = "if jsLess (mapGet fS node) (mapGet fS cur) then (node, i) else (cur, idx)"
  have r: "lowestFScore fS rest (Suc i) ?acc = (c, j)" using Cons.prems(4) by simp
  have app: "pre @ node # rest = (pre @ [node]) @ rest" by simp
  show ?case
  proof (cases "jsLess (mapGet fS node) (mapGet fS cur)")
    case True
    have "j < length ((pre @ [node]) @ rest) \<and> ((pre @ [node]) @ rest) ! j = c"
      by (rule Cons.IH[of i "pre @ [node]" node "Suc i"]) (use True r Cons.prems in \<open>simp_all add: nth_append\<close>)
    then show ?thesis by simp
  next
    case False
    have "j < length ((pre @ [node]) @ rest) \<and> ((pre @ [node]) @ rest) ! j = c"
      by (rule Cons.IH[of idx "pre @ [node]" cur "Suc i"]) (use False r Cons.prems in \<open>simp_all add: nth_append\<close>)
    then show ?thesis by simp
  qed
qed

lemma jsLess_fval:
  "mapGet fS a = Num (fval fS a) \<Longrightarrow> mapGet fS b = Num (fval fS b) \<Longrightarrow>
   jsLess (mapGet fS a) (mapGet fS b) \<longleftrightarrow> fval fS a < fval fS b"
  by (metis jsLess.simps(1))

lemma lowestFScore_min:
  "\<forall>n \<in> set (cur # rest). mapGet fS n = Num (fval fS n) \<Longrightarrow>
   lowestFScore fS rest i (cur, idx) = (c, j) \<Longrightarrow>
   \<forall>n \<in> set (cur # rest). fval fS c \<le> fval fS n"
proof (induction rest arbitrary: i cur idx)
  case Nil
  then show ?case by simp
next
  case (Cons node rest)
  show ?case
  proof (cases "fval fS node < fval fS cur")
    case True
    then have "jsLess (mapGet fS node) (mapGet fS cur)"
      using Cons.prems(1) jsLess_fval[of fS node cur] by simp
    then have "lowestFScore fS rest (Suc i) (node, i) = (c, j)" using Cons.prems(2) by simp
    then have "\<forall>n \<in> set (node # rest). fval fS c \<le> fval fS n"
      using Cons.IH[of node "Suc i" i] Cons.prems(1) by simp
    then show ?thesis using True by auto
  next
    case False
    then have "\<not> jsLess (mapGet fS node) (mapGet fS cur)"
      using Cons.prems(1) jsLess_fval[of fS node cur] by simp
    then have "lowestFScore fS rest (Suc i) (cur, idx) = (c, j)" using Cons.prems(2) by simp
    then have "\<forall>n \<in> set (cur # rest). fval fS c \<le> fval fS n"
      using Cons.IH[of cur "Suc i" idx] Cons.prems(1) by simp
    then show ?thesis using False by auto
  qed
qed

lemma remove_index_set:
  "distinct xs \<Longrightarrow> j < length xs \<Longrightarrow>
   set (take j xs @ drop (Suc j) xs) = set xs - {xs ! j} \<and> distinct (take j xs @ drop (Suc j) xs)"
proof -
  assume d: "distinct xs" and j: "j < length xs"
  have xs: "xs = take j xs @ xs ! j # drop (Suc j) xs" using j by (rule id_take_nth_drop)
  have "distinct (take j xs @ xs ! j # drop (Suc j) xs)" using d xs by simp
  then have a: "xs ! j \<notin> set (take j xs @ drop (Suc j) xs)" "distinct (take j xs @ drop (Suc j) xs)"
    by auto
  have "set xs = insert (xs ! j) (set (take j xs @ drop (Suc j) xs))"
    by (subst xs) auto
  then show ?thesis using a by auto
qed

subsection \<open>The invariant through the visit of a neighbour\<close>

lemma gval_Num: "gScore s n = Some (Num g) \<Longrightarrow> gval s n = g"
  by (simp add: gval_def mapGet_def)

lemma invFrontierD:
  "invFrontier eng obstacleSet cur todo s \<Longrightarrow> n \<in> closedSet s \<Longrightarrow> unitStep n m \<Longrightarrow>
   freeCell eng obstacleSet m \<Longrightarrow> \<not> (n = cur \<and> m \<in> set todo) \<Longrightarrow>
   m \<in> closedSet s \<or> (m \<in> set (openSet s) \<and> gval s m \<le> gval s n + 1)"
  unfolding invFrontier_def by blast

lemma invOptimalD:
  "invOptimal eng obstacleSet start s \<Longrightarrow> n \<in> closedSet s \<Longrightarrow> route eng obstacleSet start n q \<Longrightarrow>
   gval s n + 1 \<le> int (length q)"
  unfolding invOptimal_def by blast

lemma invParentD:
  "invParent eng obstacleSet start s \<Longrightarrow> n \<in> nodes s \<Longrightarrow> n \<noteq> start \<Longrightarrow>
   freeCell eng obstacleSet n \<and>
   (\<exists>p. cameFrom s n = Some p \<and> p \<in> closedSet s \<and> unitStep p n \<and> gval s n = gval s p + 1)"
  unfolding invParent_def by blast

lemma invScoresD:
  "invScores target s \<Longrightarrow> n \<in> nodes s \<Longrightarrow>
   gScore s n = Some (Num (gval s n)) \<and>
   fScore s n = Some (Num (gval s n + heuristic n target)) \<and> 0 \<le> gval s n"
  unfolding invScores_def by blast

lemma visitNeighbor_cases:
  assumes cur: "gScore s cur = Some (Num gc)"
    and dom: "dom (gScore s) \<subseteq> nodes s"
    and sc: "\<forall>n \<in> nodes s. gScore s n = Some (Num (gval s n))"
  shows "visitNeighbor target obstacleSet cur m s =
     (if m \<in> closedSet s \<or> m \<in> obstacleSet then s
      else if m \<in> set (openSet s)
           then (if gc + 1 \<ge> gval s m then s else relax target cur m gc [] s)
           else relax target cur m gc [m] s)"
proof (cases "m \<in> closedSet s \<or> m \<in> obstacleSet")
  case True
  then show ?thesis by (auto simp: visitNeighbor_def)
next
  case False
  have t: "jsPlus (mapGet (gScore s) cur) 1 = Num (gc + 1)" using cur by (simp add: mapGet_def)
  show ?thesis
  proof (cases "m \<in> set (openSet s)")
    case True
    then have g: "gScore s m = Some (Num (gval s m))" using sc by (simp add: nodes_def)
    then have mg: "mapGet (gScore s) m = Num (gval s m)" by (simp add: mapGet_def)
    show ?thesis using False True g mg t
      by (simp add: visitNeighbor_def Let_def relax_def)
  next
    case m: False
    then have "m \<notin> nodes s" using False by (simp add: nodes_def)
    then have g: "gScore s m = None" using dom by auto
    show ?thesis using False m g t
      by (simp add: visitNeighbor_def Let_def relax_def)
  qed
qed

lemma relax_fields:
  "openSet (relax target cur m gc ext s) = openSet s @ ext"
  "closedSet (relax target cur m gc ext s) = closedSet s"
  "gScore (relax target cur m gc ext s) = (gScore s)(m \<mapsto> Num (gc + 1))"
  "fScore (relax target cur m gc ext s) = (fScore s)(m \<mapsto> Num (gc + 1 + heuristic m target))"
  "cameFrom (relax target cur m gc ext s) = (cameFrom s)(m \<mapsto> cur)"
  by (simp_all add: relax_def)

lemma relax_gval: "gval (relax target cur m gc ext s) n = (if n = m then gc + 1 else gval s n)"
  by (simp add: gval_def mapGet_def relax_fields)

lemma relax_inv:
  assumes inv: "searchInv eng obstacleSet start target cur (m # todo) s"
    and cur: "cur \<in> closedSet s" "gval s cur = gc"
    and m: "unitStep cur m" "isValidPosition eng m" "m \<notin> closedSet s" "m \<notin> obstacleSet"
    and ext: "(ext = [] \<and> m \<in> set (openSet s) \<and> gc + 1 < gval s m) \<or> (ext = [m] \<and> m \<notin> nodes s)"
  shows "searchInv eng obstacleSet start target cur todo (relax target cur m gc ext s)"
proof -
  let ?s = "relax target cur m gc ext s"
  from inv have st: "invStruct s" and sc: "invScores target s" and sta: "invStart eng start s"
    and par: "invParent eng obstacleSet start s" and opt: "invOptimal eng obstacleSet start s"
    and fr: "invFrontier eng obstacleSet cur (m # todo) s" and tg: "target \<notin> closedSet s"
    by (simp_all add: searchInv_def)
  have nodes': "nodes ?s = insert m (nodes s)"
    using ext by (auto simp: nodes_def relax_fields)
  have mcur: "m \<noteq> cur" using cur m by auto
  have startc: "start \<in> closedSet s" using sta cur by (auto simp: invStart_def)
  have mstart: "m \<noteq> start" using startc m by auto
  have gc0: "0 \<le> gc" using sc cur by (auto simp: invScores_def nodes_def)
  have closed_nodes: "closedSet s \<subseteq> nodes s" by (simp add: nodes_def)
  have 1: "invStruct ?s"
    using st ext m(3) by (auto simp: invStruct_def relax_fields nodes_def)
  have 2: "invScores target ?s"
    unfolding invScores_def nodes'
  proof
    fix n assume n: "n \<in> insert m (nodes s)"
    show "gScore ?s n = Some (Num (gval ?s n)) \<and>
        fScore ?s n = Some (Num (gval ?s n + heuristic n target)) \<and> 0 \<le> gval ?s n"
    proof (cases "n = m")
      case True
      then show ?thesis using gc0 by (simp add: relax_fields relax_gval)
    next
      case False
      then have "n \<in> nodes s" using n by simp
      then show ?thesis using sc False by (simp add: invScores_def relax_fields relax_gval)
    qed
  qed
  have 3: "invStart eng start ?s"
    using sta startc mstart by (simp add: invStart_def relax_fields)
  have 4: "invParent eng obstacleSet start ?s"
    unfolding invParent_def nodes'
  proof (intro ballI impI)
    fix n assume n: "n \<in> insert m (nodes s)" and ns: "n \<noteq> start"
    show "freeCell eng obstacleSet n \<and>
       (\<exists>p. cameFrom ?s n = Some p \<and> p \<in> closedSet ?s \<and> unitStep p n \<and> gval ?s n = gval ?s p + 1)"
    proof (cases "n = m")
      case True
      then show ?thesis using m cur mcur
        by (simp add: freeCell_def relax_fields relax_gval)
    next
      case False
      then have "n \<in> nodes s" using n by simp
      then obtain p where f: "freeCell eng obstacleSet n" and p: "cameFrom s n = Some p"
        "p \<in> closedSet s" "unitStep p n" "gval s n = gval s p + 1"
        using invParentD[OF par _ ns] by blast
      have "p \<noteq> m" using p(2) m(3) by auto
      then show ?thesis using f p False by (simp add: relax_fields relax_gval)
    qed
  qed
  have 5: "invOptimal eng obstacleSet start ?s"
    unfolding invOptimal_def
  proof (intro ballI allI impI)
    fix n q assume n: "n \<in> closedSet ?s" and q: "route eng obstacleSet start n q"
    have "n \<noteq> m" using n m(3) by (auto simp: relax_fields)
    then show "gval ?s n + 1 \<le> int (length q)"
      using invOptimalD[OF opt _ q] n by (simp add: relax_fields relax_gval)
  qed
  have 6: "invFrontier eng obstacleSet cur todo ?s"
    unfolding invFrontier_def
  proof (intro ballI allI impI)
    fix n m' assume n: "n \<in> closedSet ?s"
      and h: "unitStep n m' \<and> freeCell eng obstacleSet m' \<and> \<not> (n = cur \<and> m' \<in> set todo)"
    have nc: "n \<in> closedSet s" using n by (simp add: relax_fields)
    then have nm: "n \<noteq> m" using m(3) by auto
    show "m' \<in> closedSet ?s \<or> (m' \<in> set (openSet ?s) \<and> gval ?s m' \<le> gval ?s n + 1)"
    proof (cases "m' = m")
      case True
      have inopen: "m \<in> set (openSet ?s)" using ext by (auto simp: relax_fields)
      have "gc + 1 \<le> gval s n + 1"
      proof (cases "n = cur")
        case True
        then show ?thesis using cur by simp
      next
        case False
        then have "m \<in> closedSet s \<or> (m \<in> set (openSet s) \<and> gval s m \<le> gval s n + 1)"
          using invFrontierD[OF fr nc, of m] h True by simp
        then have "m \<in> set (openSet s)" "gval s m \<le> gval s n + 1" using m(3) by auto
        then show ?thesis using ext by (auto simp: nodes_def)
      qed
      then show ?thesis using True inopen nm by (simp add: relax_gval)
    next
      case False
      then have "m' \<in> closedSet s \<or> (m' \<in> set (openSet s) \<and> gval s m' \<le> gval s n + 1)"
        using invFrontierD[OF fr nc, of m'] h by simp
      then show ?thesis using False nm by (auto simp: relax_fields relax_gval)
    qed
  qed
  have 7: "target \<notin> closedSet ?s" using tg by (simp add: relax_fields)
  show ?thesis using 1 2 3 4 5 6 7 by (simp add: searchInv_def)
qed

lemma invFrontier_done:
  assumes "invFrontier eng obstacleSet cur (m # todo) s"
    and "m \<in> closedSet s \<or> \<not> freeCell eng obstacleSet m \<or> (m \<in> set (openSet s) \<and> gval s m \<le> gval s cur + 1)"
  shows "invFrontier eng obstacleSet cur todo s"
  unfolding invFrontier_def
proof (intro ballI allI impI)
  fix n m' assume n: "n \<in> closedSet s"
    and h: "unitStep n m' \<and> freeCell eng obstacleSet m' \<and> \<not> (n = cur \<and> m' \<in> set todo)"
  show "m' \<in> closedSet s \<or> (m' \<in> set (openSet s) \<and> gval s m' \<le> gval s n + 1)"
  proof (cases "n = cur \<and> m' = m")
    case True
    then show ?thesis using assms(2) h by auto
  next
    case False
    then show ?thesis using invFrontierD[OF assms(1) n, of m'] h by auto
  qed
qed

lemma visitNeighbor_inv:
  assumes inv: "searchInv eng obstacleSet start target cur (m # todo) s"
    and cur: "cur \<in> closedSet s"
    and m: "unitStep cur m" "isValidPosition eng m"
  shows "searchInv eng obstacleSet start target cur todo (visitNeighbor target obstacleSet cur m s) \<and>
         closedSet (visitNeighbor target obstacleSet cur m s) = closedSet s"
proof -
  from inv have st: "invStruct s" and sc: "invScores target s"
    and fr: "invFrontier eng obstacleSet cur (m # todo) s"
    by (simp_all add: searchInv_def)
  have gcur: "gScore s cur = Some (Num (gval s cur))"
    using sc cur by (simp add: invScores_def nodes_def)
  have dom: "dom (gScore s) \<subseteq> nodes s" using st by (simp add: invStruct_def)
  have scs: "\<forall>n \<in> nodes s. gScore s n = Some (Num (gval s n))" using sc by (simp add: invScores_def)
  note vc = visitNeighbor_cases[OF gcur dom scs, of target obstacleSet m]
  have keep: "searchInv eng obstacleSet start target cur todo s"
    if "m \<in> closedSet s \<or> \<not> freeCell eng obstacleSet m \<or> (m \<in> set (openSet s) \<and> gval s m \<le> gval s cur + 1)"
    using inv invFrontier_done[OF fr that] by (simp add: searchInv_def)
  show ?thesis
  proof (cases "m \<in> closedSet s \<or> m \<in> obstacleSet")
    case True
    then have "visitNeighbor target obstacleSet cur m s = s" using vc by simp
    moreover have "searchInv eng obstacleSet start target cur todo s"
      using True by (intro keep) (auto simp: freeCell_def)
    ultimately show ?thesis by simp
  next
    case False
    then have mc: "m \<notin> closedSet s" and mo: "m \<notin> obstacleSet" by auto
    show ?thesis
    proof (cases "m \<in> set (openSet s)")
      case True
      show ?thesis
      proof (cases "gval s cur + 1 \<ge> gval s m")
        case le: True
        then have "visitNeighbor target obstacleSet cur m s = s" using vc False True by simp
        moreover have "searchInv eng obstacleSet start target cur todo s"
          using True le by (intro keep) simp
        ultimately show ?thesis by simp
      next
        case gt: False
        then have v: "visitNeighbor target obstacleSet cur m s = relax target cur m (gval s cur) [] s"
          using vc False True by simp
        have "searchInv eng obstacleSet start target cur todo (relax target cur m (gval s cur) [] s)"
          by (rule relax_inv[OF inv cur refl m mc mo]) (use True gt in simp)
        then show ?thesis using v by (simp add: relax_fields)
      qed
    next
      case no: False
      then have v: "visitNeighbor target obstacleSet cur m s = relax target cur m (gval s cur) [m] s"
        using vc False by simp
      have "searchInv eng obstacleSet start target cur todo (relax target cur m (gval s cur) [m] s)"
        by (rule relax_inv[OF inv cur refl m mc mo]) (use no mc in \<open>simp add: nodes_def\<close>)
      then show ?thesis using v by (simp add: relax_fields)
    qed
  qed
qed

lemma fold_visitNeighbor_inv:
  "searchInv eng obstacleSet start target cur todo s \<Longrightarrow> cur \<in> closedSet s \<Longrightarrow>
   \<forall>m \<in> set todo. unitStep cur m \<and> isValidPosition eng m \<Longrightarrow>
   searchInv eng obstacleSet start target cur [] (fold (visitNeighbor target obstacleSet cur) todo s) \<and>
   closedSet (fold (visitNeighbor target obstacleSet cur) todo s) = closedSet s"
proof (induction todo arbitrary: s)
  case Nil
  then show ?case by simp
next
  case (Cons m todo)
  have v: "searchInv eng obstacleSet start target cur todo (visitNeighbor target obstacleSet cur m s) \<and>
         closedSet (visitNeighbor target obstacleSet cur m s) = closedSet s"
    using Cons.prems by (intro visitNeighbor_inv) simp_all
  then show ?case using Cons.IH[of "visitNeighbor target obstacleSet cur m s"] Cons.prems by simp
qed

subsection \<open>The selected node has its final score\<close>

text \<open>
  Along any route to the selected node \<open>u\<close>, the first cell that is not closed is open
  with a score bounded by its position on the route; \<open>u\<close> has the least \<open>fScore\<close> of the
  open list and the heuristic drops by at most one per step, so the score of \<open>u\<close> is at
  most the number of moves of the route.
\<close>

lemma closed_prefix_bound:
  assumes sc: "invScores target s" and opt: "invOptimal eng obstacleSet start s"
    and fr: "invFrontier eng obstacleSet cur [] s"
    and umin: "\<forall>n \<in> set (openSet s). gval s u + heuristic u target \<le> gval s n + heuristic n target"
  shows "route eng obstacleSet start c pre \<Longrightarrow> c \<in> closedSet s \<Longrightarrow>
         successively unitStep (c # cs) \<Longrightarrow> list_all (freeCell eng obstacleSet) cs \<Longrightarrow>
         last (c # cs) = u \<Longrightarrow> gval s u + 1 \<le> int (length pre) + int (length cs)"
proof (induction cs arbitrary: c pre)
  case Nil
  then show ?case using invOptimalD[OF opt, of c pre] by simp
next
  case (Cons d ds)
  have step: "unitStep c d" and rest: "successively unitStep (d # ds)"
    and fd: "freeCell eng obstacleSet d" and fds: "list_all (freeCell eng obstacleSet) ds"
    and lst: "last (d # ds) = u"
    using Cons.prems by simp_all
  have rd: "route eng obstacleSet start d (pre @ [d])"
    using Cons.prems(1) step fd by (rule route_snoc)
  from invFrontierD[OF fr Cons.prems(2) step fd]
  have "d \<in> closedSet s \<or> (d \<in> set (openSet s) \<and> gval s d \<le> gval s c + 1)" by simp
  then show ?case
  proof
    assume "d \<in> closedSet s"
    from Cons.IH[OF rd this rest fds lst] show ?thesis by simp
  next
    assume d: "d \<in> set (openSet s) \<and> gval s d \<le> gval s c + 1"
    have c: "gval s c + 1 \<le> int (length pre)"
      using invOptimalD[OF opt Cons.prems(2) Cons.prems(1)] .
    have h: "heuristic d target \<le> heuristic u target + int (length ds)"
      using steps_heuristic[OF rest, of target] lst by simp
    have "gval s u + heuristic u target \<le> gval s d + heuristic d target"
      using umin d by blast
    then show ?thesis using c h d by simp
  qed
qed

lemma selected_optimal:
  assumes sc: "invScores target s" and opt: "invOptimal eng obstacleSet start s"
    and fr: "invFrontier eng obstacleSet cur [] s" and sta: "invStart eng start s"
    and u: "u \<in> set (openSet s)"
    and umin: "\<forall>n \<in> set (openSet s). gval s u + heuristic u target \<le> gval s n + heuristic n target"
    and q: "route eng obstacleSet start u q"
  shows "gval s u + 1 \<le> int (length q)"
proof -
  from q obtain cs where qs: "q = start # cs" "last (start # cs) = u"
    "successively unitStep (start # cs)" "list_all (freeCell eng obstacleSet) cs"
    unfolding route_Cons by blast
  show ?thesis
  proof (cases "start \<in> closedSet s")
    case True
    from closed_prefix_bound[OF sc opt fr umin route_single True qs(3) qs(4) qs(2)]
    show ?thesis using qs(1) by simp
  next
    case False
    then have "openSet s = [start]" using sta by (simp add: invStart_def)
    then have "u = start" using u by simp
    moreover have "gval s start = 0" using sta by (simp add: invStart_def gval_Num)
    ultimately show ?thesis using qs(1) by simp
  qed
qed

lemma selection:
  assumes sc: "invScores target s" and op: "openSet s = first # rest"
    and sel: "lowestFScore (fScore s) rest 1 (first, 0) = (u, j)"
  shows "j < length (openSet s) \<and> openSet s ! j = u \<and> u \<in> set (openSet s) \<and>
     (\<forall>n \<in> set (openSet s). gval s u + heuristic u target \<le> gval s n + heuristic n target)"
proof -
  have idx: "j < length ([first] @ rest) \<and> ([first] @ rest) ! j = u"
    by (rule lowestFScore_index[of 0 "[first]" rest first 1 "fScore s" u j]) (use sel in simp_all)
  then have 1: "j < length (openSet s)" "openSet s ! j = u" using op by simp_all
  then have 2: "u \<in> set (openSet s)" using nth_mem by blast
  have fv: "mapGet (fScore s) n = Num (fval (fScore s) n) \<and> fval (fScore s) n = gval s n + heuristic n target"
    if "n \<in> set (openSet s)" for n
    using invScoresD[OF sc, of n] that by (simp add: nodes_def mapGet_def fval_def)
  have "\<forall>n \<in> set (first # rest). mapGet (fScore s) n = Num (fval (fScore s) n)"
    using fv op by simp
  from lowestFScore_min[OF this sel]
  have "\<forall>n \<in> set (openSet s). fval (fScore s) u \<le> fval (fScore s) n" using op by simp
  then have 3: "\<forall>n \<in> set (openSet s). gval s u + heuristic u target \<le> gval s n + heuristic n target"
    using fv 2 by simp
  show ?thesis using 1 2 3 by simp
qed

lemma closeNode_gval: "gval (closeNode u j s) n = gval s n"
  by (simp add: gval_def closeNode_def)

lemma nodes_valid:
  assumes sta: "invStart eng start s" and par: "invParent eng obstacleSet start s" and n: "n \<in> nodes s"
  shows "isValidPosition eng n"
proof (cases "n = start")
  case True
  then show ?thesis using sta by (simp add: invStart_def)
next
  case False
  then show ?thesis using invParentD[OF par n] by (simp add: freeCell_def)
qed

lemma closeNode_inv:
  assumes inv: "searchInv eng obstacleSet start target cur [] s"
    and j: "j < length (openSet s)" "openSet s ! j = u"
    and umin: "\<forall>n \<in> set (openSet s). gval s u + heuristic u target \<le> gval s n + heuristic n target"
    and ut: "u \<noteq> target"
  shows "searchInv eng obstacleSet start target u (getNeighbors eng u) (closeNode u j s)"
proof -
  let ?s = "closeNode u j s"
  from inv have st: "invStruct s" and sc: "invScores target s" and sta: "invStart eng start s"
    and par: "invParent eng obstacleSet start s" and opt: "invOptimal eng obstacleSet start s"
    and fr: "invFrontier eng obstacleSet cur [] s" and tg: "target \<notin> closedSet s"
    by (simp_all add: searchInv_def)
  have uo: "u \<in> set (openSet s)" using j nth_mem by blast
  have dist: "distinct (openSet s)" and disj: "set (openSet s) \<inter> closedSet s = {}"
    using st by (simp_all add: invStruct_def)
  have rem: "set (openSet ?s) = set (openSet s) - {u}" "distinct (openSet ?s)"
    using remove_index_set[OF dist j(1)] j(2) by (simp_all add: closeNode_def)
  have cl: "closedSet ?s = insert u (closedSet s)" by (simp add: closeNode_def)
  have same: "gScore ?s = gScore s" "fScore ?s = fScore s" "cameFrom ?s = cameFrom s"
    by (simp_all add: closeNode_def)
  have nodes': "nodes ?s = nodes s" using uo rem(1) cl by (auto simp: nodes_def)
  have 1: "invStruct ?s"
    using st rem disj by (auto simp: invStruct_def cl nodes' same)
  have 2: "invScores target ?s"
    using sc by (simp add: invScores_def nodes' same closeNode_gval)
  have 3: "invStart eng start ?s"
  proof (cases "start \<in> closedSet s")
    case True
    then show ?thesis using sta by (simp add: invStart_def same cl)
  next
    case False
    then have "openSet s = [start]" using sta by (simp add: invStart_def)
    then have "u = start" using uo by simp
    then show ?thesis using sta same cl by (simp add: invStart_def)
  qed
  have 4: "invParent eng obstacleSet start ?s"
    unfolding invParent_def nodes'
  proof (intro ballI impI)
    fix n assume "n \<in> nodes s" "n \<noteq> start"
    from invParentD[OF par this]
    show "freeCell eng obstacleSet n \<and>
         (\<exists>p. cameFrom ?s n = Some p \<and> p \<in> closedSet ?s \<and> unitStep p n \<and> gval ?s n = gval ?s p + 1)"
      by (auto simp: same cl closeNode_gval)
  qed
  have 5: "invOptimal eng obstacleSet start ?s"
    unfolding invOptimal_def
  proof (intro ballI allI impI)
    fix n q assume n: "n \<in> closedSet ?s" and q: "route eng obstacleSet start n q"
    show "gval ?s n + 1 \<le> int (length q)"
    proof (cases "n = u")
      case True
      then show ?thesis
        using selected_optimal[OF sc opt fr sta uo umin] q by (simp add: closeNode_gval)
    next
      case False
      then have "n \<in> closedSet s" using n cl by simp
      then show ?thesis using invOptimalD[OF opt _ q] by (simp add: closeNode_gval)
    qed
  qed
  have 6: "invFrontier eng obstacleSet u (getNeighbors eng u) ?s"
    unfolding invFrontier_def
  proof (intro ballI allI impI)
    fix n m assume n: "n \<in> closedSet ?s"
      and h: "unitStep n m \<and> freeCell eng obstacleSet m \<and> \<not> (n = u \<and> m \<in> set (getNeighbors eng u))"
    have "n \<noteq> u"
    proof
      assume "n = u"
      then have "m \<in> set (getNeighbors eng u)"
        using h by (simp add: unitStep_getNeighbors freeCell_def)
      then show False using h \<open>n = u\<close> by simp
    qed
    then have nc: "n \<in> closedSet s" using n cl by simp
    from invFrontierD[OF fr nc, of m] h
    have "m \<in> closedSet s \<or> (m \<in> set (openSet s) \<and> gval s m \<le> gval s n + 1)" by simp
    then show "m \<in> closedSet ?s \<or> (m \<in> set (openSet ?s) \<and> gval ?s m \<le> gval ?s n + 1)"
      using rem(1) cl by (auto simp: closeNode_gval)
  qed
  have 7: "target \<notin> closedSet ?s" using tg ut cl by simp
  show ?thesis using 1 2 3 4 5 6 7 by (simp add: searchInv_def)
qed

subsection \<open>Reconstruction, exhaustion and the loop as a whole\<close>

lemma reconstruct_route:
  assumes sc: "invScores target s" and sta: "invStart eng start s"
    and par: "invParent eng obstacleSet start s"
  shows "n \<in> nodes s \<Longrightarrow> nat (gval s n) = k \<Longrightarrow>
     \<exists>pre. reconstructLoop (cameFrom s) (n # rest) n = Some (pre @ n # rest) \<and> length pre = k \<and>
           route eng obstacleSet start n (pre @ [n])"
proof (induction k arbitrary: n rest)
  case 0
  have g0: "0 \<le> gval s n" using invScoresD[OF sc "0.prems"(1)] by simp
  have "n = start"
  proof (rule ccontr)
    assume ns: "n \<noteq> start"
    from invParentD[OF par "0.prems"(1) ns] obtain p where
      p: "p \<in> closedSet s" "gval s n = gval s p + 1" by blast
    have "0 \<le> gval s p" using invScoresD[OF sc, of p] p(1) by (simp add: nodes_def)
    then show False using p(2) "0.prems"(2) by simp
  qed
  then have "reconstructLoop (cameFrom s) (n # rest) n = Some ([] @ n # rest)"
    using sta by (subst reconstructLoop.simps) (simp add: invStart_def)
  then show ?case using \<open>n = start\<close> route_single by fastforce
next
  case (Suc k)
  have "gval s start = 0" using sta by (simp add: invStart_def gval_Num)
  then have ns: "n \<noteq> start" using Suc.prems(2) by auto
  from invParentD[OF par Suc.prems(1) ns] obtain p where
    f: "freeCell eng obstacleSet n" and p: "cameFrom s n = Some p" "p \<in> closedSet s"
    "unitStep p n" "gval s n = gval s p + 1" by blast
  have pn: "p \<in> nodes s" using p(2) by (simp add: nodes_def)
  have "0 \<le> gval s p" using invScoresD[OF sc pn] by simp
  then have "nat (gval s p) = k" using p(4) Suc.prems(2) by simp
  from Suc.IH[OF pn this, of "n # rest"] obtain pre where
    pre: "reconstructLoop (cameFrom s) (p # n # rest) p = Some (pre @ p # n # rest)"
    "length pre = k" "route eng obstacleSet start p (pre @ [p])" by blast
  have "reconstructLoop (cameFrom s) (n # rest) n = Some ((pre @ [p]) @ n # rest)"
    using p(1) pre(1) by (subst reconstructLoop.simps) simp
  moreover have "route eng obstacleSet start n ((pre @ [p]) @ [n])"
    using pre(3) p(3) f by (rule route_snoc)
  ultimately show ?case using pre(2) by (intro exI[of _ "pre @ [p]"]) simp
qed

lemma closed_under_steps:
  assumes fr: "invFrontier eng obstacleSet cur [] s" and op: "openSet s = []"
  shows "c \<in> closedSet s \<Longrightarrow> successively unitStep (c # cs) \<Longrightarrow>
         list_all (freeCell eng obstacleSet) cs \<Longrightarrow> last (c # cs) \<in> closedSet s"
proof (induction cs arbitrary: c)
  case Nil
  then show ?case by simp
next
  case (Cons d ds)
  have "d \<in> closedSet s"
    using invFrontierD[OF fr Cons.prems(1), of d] Cons.prems(2,3) op by simp
  then show ?case using Cons.IH[of d] Cons.prems(2,3) by simp
qed

lemma finite_valid: "finite {c. isValidPosition eng c}"
proof -
  have "{c. isValidPosition eng c} \<subseteq> {0..<boardWidth eng} \<times> {0..<boardHeight eng}"
    by (auto simp: isValidPosition_def)
  then show ?thesis by (rule finite_subset) simp
qed

lemma searchLoop_step:
  assumes "openSet s = first # rest" "lowestFScore (fScore s) rest 1 (first, 0) = (u, j)"
  shows "searchLoop eng target obstacleSet s =
     (if u = target then map_option Path (reconstructPath (cameFrom s) u)
      else searchLoop eng target obstacleSet
             (fold (visitNeighbor target obstacleSet u) (getNeighbors eng u) (closeNode u j s)))"
  using assms by (subst searchLoop.simps) (simp add: Let_def closeNode_def)

text \<open>
  The loop returns from every state that satisfies the invariant: each iteration closes
  a cell of the board that was not closed. It returns \<open>null\<close> only when no route
  exists, and otherwise a route no longer than any other.
\<close>

lemma searchLoop_total:
  assumes "searchInv eng obstacleSet start target cur [] s"
  shows "\<exists>r. searchLoop eng target obstacleSet s = Some r \<and> searchPost eng obstacleSet start target r"
  using assms
proof (induction "card ({c. isValidPosition eng c} - closedSet s)" arbitrary: s cur rule: less_induct)
  case less
  note inv = less.prems
  from inv have st: "invStruct s" and sc: "invScores target s" and sta: "invStart eng start s"
    and par: "invParent eng obstacleSet start s" and opt: "invOptimal eng obstacleSet start s"
    and fr: "invFrontier eng obstacleSet cur [] s" and tg: "target \<notin> closedSet s"
    by (simp_all add: searchInv_def)
  show ?case
  proof (cases "openSet s")
    case Nil
    have r: "searchLoop eng target obstacleSet s = Some Null"
      using Nil by (subst searchLoop.simps) simp
    have "\<not> route eng obstacleSet start target q" for q
    proof
      assume "route eng obstacleSet start target q"
      then obtain cs where qs: "last (start # cs) = target"
        "successively unitStep (start # cs)" "list_all (freeCell eng obstacleSet) cs"
        unfolding route_Cons by blast
      have "start \<in> closedSet s" using sta Nil by (simp add: invStart_def)
      from closed_under_steps[OF fr Nil this qs(2,3)] show False using qs(1) tg by simp
    qed
    then show ?thesis using r by (simp add: searchPost_def)
  next
    case (Cons first rest)
    obtain u j where sel: "lowestFScore (fScore s) rest 1 (first, 0) = (u, j)"
      by (cases "lowestFScore (fScore s) rest 1 (first, 0)") auto
    from selection[OF sc Cons sel] have j: "j < length (openSet s)" "openSet s ! j = u"
      and uo: "u \<in> set (openSet s)"
      and umin: "\<forall>n \<in> set (openSet s). gval s u + heuristic u target \<le> gval s n + heuristic n target"
      by simp_all
    note step = searchLoop_step[OF Cons sel, of eng target obstacleSet]
    have un: "u \<in> nodes s" using uo by (simp add: nodes_def)
    show ?thesis
    proof (cases "u = target")
      case True
      from reconstruct_route[OF sc sta par un refl, of "[]"] obtain pre where
        pre: "reconstructLoop (cameFrom s) [u] u = Some (pre @ [u])"
        "length pre = nat (gval s u)" "route eng obstacleSet start u (pre @ [u])" by auto
      have r: "searchLoop eng target obstacleSet s = Some (Path (pre @ [u]))"
        using step True pre(1) by (simp add: reconstructPath_def)
      have g0: "0 \<le> gval s u" using invScoresD[OF sc un] by simp
      have "length (pre @ [u]) \<le> length q" if "route eng obstacleSet start target q" for q
        using selected_optimal[OF sc opt fr sta uo umin, of q] that True pre(2) g0 by simp
      then show ?thesis using r pre(3) True by (simp add: searchPost_def)
    next
      case False
      let ?s1 = "closeNode u j s"
      let ?s2 = "fold (visitNeighbor target obstacleSet u) (getNeighbors eng u) ?s1"
      have inv1: "searchInv eng obstacleSet start target u (getNeighbors eng u) ?s1"
        using inv j umin False by (rule closeNode_inv)
      have uc: "u \<in> closedSet ?s1" by (simp add: closeNode_def)
      have "searchInv eng obstacleSet start target u [] ?s2 \<and> closedSet ?s2 = closedSet ?s1"
        using inv1 uc by (rule fold_visitNeighbor_inv) (simp add: unitStep_getNeighbors)
      then have inv2: "searchInv eng obstacleSet start target u [] ?s2"
        and cl2: "closedSet ?s2 = insert u (closedSet s)" by (simp_all add: closeNode_def)
      have unc: "u \<notin> closedSet s" using st uo by (auto simp: invStruct_def)
      have uv: "isValidPosition eng u" using nodes_valid[OF sta par un] .
      have "{c. isValidPosition eng c} - closedSet ?s2 \<subset> {c. isValidPosition eng c} - closedSet s"
        using cl2 unc uv by auto
      then have "card ({c. isValidPosition eng c} - closedSet ?s2) < card ({c. isValidPosition eng c} - closedSet s)"
        using finite_valid[of eng] by (intro psubset_card_mono) simp_all
      from less.hyps[OF this inv2] show ?thesis using step False by simp
    qed
  qed
qed

lemma initialState_inv:
  assumes "isValidPosition eng start"
  shows "searchInv eng obstacleSet start target cur [] (initialState start target)"
proof -
  let ?s = "initialState start target"
  have n: "nodes ?s = {start}" by (simp add: nodes_def initialState_def)
  have g: "gval ?s start = 0" by (simp add: gval_def mapGet_def initialState_def)
  have 1: "invStruct ?s" by (simp add: invStruct_def n) (simp add: initialState_def)
  have 2: "invScores target ?s" unfolding invScores_def n using g by (simp add: initialState_def)
  have 3: "invStart eng start ?s" using assms by (simp add: invStart_def initialState_def)
  have 4: "invParent eng obstacleSet start ?s" unfolding invParent_def n by simp
  have 5: "invOptimal eng obstacleSet start ?s" by (simp add: invOptimal_def initialState_def)
  have 6: "invFrontier eng obstacleSet cur [] ?s" by (simp add: invFrontier_def initialState_def)
  have 7: "target \<notin> closedSet ?s" by (simp add: initialState_def)
  show ?thesis using 1 2 3 4 5 6 7 by (simp add: searchInv_def)
qed

lemma findPath_guarded:
  "isValidPosition eng start \<Longrightarrow> isValidPosition eng target \<Longrightarrow> target \<notin> set obstacles \<Longrightarrow>
   findPath eng start target obstacles = searchLoop eng target (set obstacles) (initialState start target)"
  by (simp add: findPath_def initialState_def)

lemma findPath_rejects:
  "\<not> isValidPosition eng start \<or> \<not> isValidPosition eng target \<or> target \<in> set obstacles \<Longrightarrow>
   findPath eng start target obstacles = Some Null"
  by (auto simp: findPath_def)

lemma findPath_total:
  assumes "isValidPosition eng start" "isValidPosition eng target" "target \<notin> set obstacles"
  shows "\<exists>r. findPath eng start target obstacles = Some r \<and>
             searchPost eng (set obstacles) start target r"
  using searchLoop_total[OF initialState_inv[OF assms(1)], of target "set obstacles"]
    findPath_guarded[OF assms] by simp

text \<open>The search on the 5 by 5 board: round the wall, and to the corner that is cut off.\<close>

lemma wayRound_found: "findPath board5 (0, 0) (2, 0) wall = Some (Path wayRound)"
  unfolding board5_def wall_def wayRound_def by code_simp

lemma wayRound_route: "route board5 (set wall) (0, 0) (2, 0) wayRound"
  by (simp add: route_def wayRound_def wall_def unitStep_def freeCell_def isValidPosition_def board5_def)

lemma corner_null: "findPath board5 (0, 0) (4, 4) corner = Some Null"
  unfolding board5_def corner_def by code_simp

text \<open>
  C2. A path returned by \<open>findPath\<close> begins at \<open>start\<close>, ends at the target, moves by
  exactly one unit on exactly one axis between consecutive cells, lies on the board,
  and has no cell after the first in the obstacle set.
\<close>

theorem findPath_result_is_route:
  assumes "findPath eng start target obstacles = Some (Path p)"
  shows "p \<noteq> [] \<and> hd p = start \<and> last p = target \<and> successively unitStep p \<and>
         list_all (isValidPosition eng) p \<and> list_all (\<lambda>c. c \<notin> set obstacles) (tl p)"
proof -
  have g: "isValidPosition eng start \<and> isValidPosition eng target \<and> target \<notin> set obstacles"
    using assms findPath_rejects[of eng start target obstacles] by auto
  then obtain r where "findPath eng start target obstacles = Some r"
    "searchPost eng (set obstacles) start target r" using findPath_total by blast
  then have r: "route eng (set obstacles) start target p" using assms by (auto simp: searchPost_def)
  then show ?thesis using route_valid[OF _ r] g by (simp add: route_def)
qed

theorem findPath_result_is_route_witness:
  "findPath board5 (0, 0) (2, 0) wall = Some (Path wayRound) \<and>
   wayRound \<noteq> [] \<and> hd wayRound = (0, 0) \<and> last wayRound = (2, 0) \<and>
   successively unitStep wayRound \<and> list_all (isValidPosition board5) wayRound \<and>
   list_all (\<lambda>c. c \<notin> set wall) (tl wayRound)"
  using findPath_result_is_route[OF wayRound_found] wayRound_found by simp

text \<open>
  C3. \<open>findPath\<close> returns on every input, and it returns \<open>null\<close> exactly when the start
  or the target is outside the board, or the target is an obstacle, or no route leads
  from the start to the target.
\<close>

theorem findPath_null_iff:
  "(\<exists>r. findPath eng start target obstacles = Some r) \<and>
   (findPath eng start target obstacles = Some Null \<longleftrightarrow>
      \<not> isValidPosition eng start \<or> \<not> isValidPosition eng target \<or> target \<in> set obstacles \<or>
      \<not> (\<exists>q. route eng (set obstacles) start target q))"
proof (cases "isValidPosition eng start \<and> isValidPosition eng target \<and> target \<notin> set obstacles")
  case True
  then obtain r where r: "findPath eng start target obstacles = Some r"
    "searchPost eng (set obstacles) start target r" using findPath_total by blast
  show ?thesis
  proof (cases r)
    case Null
    then show ?thesis using r True by (simp add: searchPost_def)
  next
    case (Path p)
    then show ?thesis using r True by (auto simp: searchPost_def)
  qed
next
  case False
  then show ?thesis using findPath_rejects[of eng start target obstacles] by auto
qed

theorem findPath_null_iff_witness:
  "isValidPosition board5 (0, 0) \<and> isValidPosition board5 (4, 4) \<and> (4, 4) \<notin> set corner \<and>
   findPath board5 (0, 0) (4, 4) corner = Some Null \<and>
   \<not> (\<exists>q. route board5 (set corner) (0, 0) (4, 4) q) \<and>
   findPath board5 (0, 0) (2, 0) wall \<noteq> Some Null \<and>
   (\<exists>q. route board5 (set wall) (0, 0) (2, 0) q)"
proof -
  have v: "isValidPosition board5 (0, 0)" "isValidPosition board5 (4, 4)" "(4, 4) \<notin> set corner"
    by (simp_all add: isValidPosition_def board5_def corner_def)
  have 1: "\<not> (\<exists>q. route board5 (set corner) (0, 0) (4, 4) q)"
    using findPath_null_iff[of board5 "(0, 0)" "(4, 4)" corner] corner_null v by simp
  have 2: "findPath board5 (0, 0) (2, 0) wall \<noteq> Some Null" using wayRound_found by simp
  then have 3: "\<exists>q. route board5 (set wall) (0, 0) (2, 0) q"
    using findPath_null_iff[of board5 "(0, 0)" "(2, 0)" wall] by blast
  show ?thesis using v corner_null 1 2 3 by simp
qed

text \<open>
  C1, as the code has it. For a start and a target on the board, the target not in the
  obstacle set, and any route between them, \<open>findPath\<close> returns a route that is no
  longer. On a board without obstacles the returned path has the Manhattan distance
  plus one cells, which is 19 from \<open>(0, 0)\<close> to \<open>(9, 9)\<close> on a 10 by 10 board.
\<close>

theorem findPath_shortest:
  "(isValidPosition eng start \<and> isValidPosition eng target \<and> target \<notin> set obstacles \<and>
    route eng (set obstacles) start target q \<longrightarrow>
      (\<exists>p. findPath eng start target obstacles = Some (Path p) \<and>
           route eng (set obstacles) start target p \<and> length p \<le> length q)) \<and>
   (isValidPosition eng start \<and> isValidPosition eng target \<longrightarrow>
      (\<exists>p. findPath eng start target [] = Some (Path p) \<and>
           int (length p) = manhattan start target + 1)) \<and>
   (\<exists>p. findPath \<lparr> boardWidth = 10, boardHeight = 10 \<rparr> (0, 0) (9, 9) [] = Some (Path p) \<and>
        length p = 19)"
proof -
  have A: "\<exists>p. findPath eng start target obstacles = Some (Path p) \<and>
           route eng (set obstacles) start target p \<and> length p \<le> length q"
    if v: "isValidPosition eng start" "isValidPosition eng target" "target \<notin> set obstacles"
      and q: "route eng (set obstacles) start target q"
    for eng :: board and start target obstacles q
  proof -
    from findPath_total[OF v] obtain r where r: "findPath eng start target obstacles = Some r"
      "searchPost eng (set obstacles) start target r" by blast
    show ?thesis
    proof (cases r)
      case Null
      then show ?thesis using r q by (simp add: searchPost_def)
    next
      case (Path p)
      then show ?thesis using r q by (simp add: searchPost_def)
    qed
  qed
  have B: "\<exists>p. findPath eng start target [] = Some (Path p) \<and>
           int (length p) = manhattan start target + 1"
    if v: "isValidPosition eng start" "isValidPosition eng target"
    for eng :: board and start target
  proof -
    from straight_route[OF v refl] obtain q where
      q: "route eng {} start target q" "int (length q) = heuristic start target + 1" by blast
    from A[OF v, of "[]" q] q(1) obtain p where
      p: "findPath eng start target [] = Some (Path p)" "route eng {} start target p"
      "length p \<le> length q" by auto
    have "heuristic start target + 1 \<le> int (length p)" using route_lower_bound[OF p(2)] .
    then have "int (length p) = manhattan start target + 1"
      using p(3) q(2) by (simp add: manhattan_def heuristic_def)
    then show ?thesis using p(1) by blast
  qed
  have C: "\<exists>p. findPath \<lparr> boardWidth = 10, boardHeight = 10 \<rparr> (0, 0) (9, 9) [] = Some (Path p) \<and>
        length p = 19"
  proof -
    from B[of "\<lparr> boardWidth = 10, boardHeight = 10 \<rparr>" "(0, 0)" "(9, 9)"] obtain p where
      "findPath \<lparr> boardWidth = 10, boardHeight = 10 \<rparr> (0, 0) (9, 9) [] = Some (Path p)"
      "int (length p) = manhattan (0, 0) (9, 9) + 1"
      by (auto simp: isValidPosition_def)
    then show ?thesis by (intro exI[of _ p]) (simp add: manhattan_def)
  qed
  show ?thesis using A B C by blast
qed

lemma downThenRight_found: "findPath board10 (0, 0) (9, 9) [] = Some (Path downThenRight)"
  unfolding board10_def downThenRight_def by code_simp

theorem findPath_shortest_witness:
  "isValidPosition board5 (0, 0) \<and> isValidPosition board5 (2, 0) \<and> (2, 0) \<notin> set wall \<and>
   route board5 (set wall) (0, 0) (2, 0) wayRound \<and>
   (\<exists>p. findPath board5 (0, 0) (2, 0) wall = Some (Path p) \<and>
        route board5 (set wall) (0, 0) (2, 0) p \<and> length p \<le> length wayRound) \<and>
   (\<exists>p. findPath board5 (0, 0) (2, 0) [] = Some (Path p) \<and>
        int (length p) = manhattan (0, 0) (2, 0) + 1) \<and>
   findPath board10 (0, 0) (9, 9) [] = Some (Path downThenRight) \<and> length downThenRight = 19"
proof -
  have v: "isValidPosition board5 (0, 0)" "isValidPosition board5 (2, 0)" "(2, 0) \<notin> set wall"
    by (simp_all add: isValidPosition_def board5_def wall_def)
  have t: "length downThenRight = 19" by (simp add: downThenRight_def)
  show ?thesis
    using findPath_shortest[of board5 "(0, 0)" "(2, 0)" wall wayRound] v wayRound_route
      downThenRight_found t by simp
qed

text \<open>
  C1 as stated fails when the start is also the target and lies in the obstacle set:
  the route of no moves connects them, and \<open>findPath\<close> returns \<open>null\<close> at its check
  of the target against the obstacles.
\<close>

theorem findPath_start_is_obstructed_target:
  "isValidPosition board5 (0, 0) \<and> route board5 (set [(0, 0)]) (0, 0) (0, 0) [(0, 0)] \<and>
   findPath board5 (0, 0) (0, 0) [(0, 0)] = Some Null"
  by (simp add: isValidPosition_def board5_def route_def findPath_def)

end
